theory Spec2Isabelle
  imports Main
begin

section \<open>Data model of the relay (src/index.js)\<close>

text \<open>
  JavaScript strings are modelled as \<^typ>\<open>string\<close>; the parser only inspects the
  ASCII characters newline, \<open>@\<close>, \<open>-\<close>, \<open>+\<close>, comma, space and the decimal digits.
  \<open>null\<close> is \<^const>\<open>None\<close>.

  Line numbers are JavaScript numbers, that is, doubles. The only ones that occur are
  produced by \<open>parseInt\<close> on a run of decimal digits and by \<open>++\<close>: the non-negative
  integers that a double can hold, and \<open>Infinity\<close>. \<open>Fin n\<close> is the double whose value
  is \<open>n\<close>.
\<close>

datatype jsnum = Fin nat | Infinity

record LineRecord =
  baseLineNumber :: "jsnum option"
  headLineNumber :: "jsnum option"
  content :: string

record Hunk =
  header :: string
  lines :: "LineRecord list"

text \<open>
  The response shape of the diff endpoint (lines 73 to 78) and the parts of the upstream
  objects that the code reads. The upstream contract is taken as typed: a commit payload
  has an optional \<open>parents\<close> array of objects with an optional \<open>sha\<close>, a compare
  payload has a \<open>files\<close> array whose entries have \<open>status\<close>, \<open>filename\<close> and an
  optional \<open>patch\<close>. Two records have a field \<open>status\<close> and two a field \<open>hunks\<close>, as
  in the source; they are told apart by their qualified names.
\<close>

record FilePath =
  path :: string

record FileDiff =
  changeKind :: string
  headFile :: FilePath
  baseFile :: FilePath
  hunks :: "Hunk list"

record changed_file =
  status :: string
  filename :: string
  patch :: "string option"

record compare_data =
  files :: "changed_file list"

record commit_parent =
  sha :: "string option"

record commit_data =
  parents :: "commit_parent list option"

text \<open>The object that \<open>githubApi.get\<close> resolves to; the handlers read its \<open>data\<close>.\<close>

record 'a api_response =
  data :: 'a

text \<open>
  The error that \<open>githubApi.get\<close> rejects with: \<open>error.response\<close> is absent when no
  response arrived, and otherwise carries the status and the (lower-cased) headers.
\<close>

record error_response =
  status :: nat
  headers :: "string \<rightharpoonup> string"

record request_error =
  response :: "error_response option"
  message :: string

record RateLimitSignal =
  error :: string
  retry_after :: "string option"

text \<open>
  What a handler sends: \<open>res.status(code).json(body)\<close>. The body is the value that is
  handed to \<open>res.json\<close>, which writes it as JSON text (and there writes \<open>Infinity\<close> as
  \<open>null\<close>).
\<close>

datatype body =
    SignalBody RateLimitSignal
  | MessageBody string
  | ErrorBody string string
  | FilesBody "FileDiff list"

record reply =
  code :: nat
  json :: body

text \<open>The local variables of \<open>parsePatch\<close> that the \<open>forEach\<close> callback updates.\<close>

record parse_state =
  hunks :: "Hunk list"
  currentHunk :: "Hunk option"
  baseLine :: jsnum
  headLine :: jsnum

section \<open>String primitives\<close>

text \<open>
  \<open>s.split('\n')\<close>: the pieces between newlines; the empty string gives one empty piece.
  The result is never empty, so the last case of the inner \<open>case\<close> is never taken.
\<close>

fun split_nl :: "string \<Rightarrow> string list" where
  "split_nl [] = [[]]"
| "split_nl (c # cs) =
     (if c = CHR 0x0A then [] # split_nl cs
      else (case split_nl cs of
              l # ls \<Rightarrow> (c # l) # ls
            | [] \<Rightarrow> [[c]]))"

text \<open>\<open>s.startsWith(p)\<close>.\<close>

definition startsWith :: "string \<Rightarrow> string \<Rightarrow> bool" where
  "startsWith s p = (take (length p) s = p)"

text \<open>The character class \<open>\d\<close> (without the unicode flag: the ten ASCII digits).\<close>

definition isDigit :: "char \<Rightarrow> bool" where
  "isDigit c = (c \<in> set ''0123456789'')"

definition digitVal :: "char \<Rightarrow> nat" where
  "digitVal c = of_char c - 48"

text \<open>The integer that a run of decimal digits denotes (leading zeros allowed).\<close>

definition decimal :: "string \<Rightarrow> nat" where
  "decimal ds = foldl (\<lambda>n c. 10 * n + digitVal c) 0 ds"

text \<open>
  Rounding an integer to a double, to nearest and ties to even. A double holds 53
  significant bits: \<open>ulp n\<close> is the spacing of the doubles around \<open>n\<close>, which is 1 below
  \<open>2^53\<close> and doubles with each further bit. A result of \<open>2^1024\<close> or more is \<open>Infinity\<close>.
\<close>

function ulp :: "nat \<Rightarrow> nat" where
  "ulp n = (if n < 2 ^ 53 then 1 else 2 * ulp (n div 2))"
  by pat_completeness auto
termination
  by (relation "measure id") auto

declare ulp.simps [simp del]

definition toDouble :: "nat \<Rightarrow> jsnum" where
  "toDouble n =
     (let u = ulp n; q = n div u; r = n mod u;
          q' = (if u < 2 * r \<or> (2 * r = u \<and> odd q) then q + 1 else q)
      in if 2 ^ 1024 \<le> q' * u then Infinity else Fin (q' * u))"

text \<open>
  \<open>parseInt\<close> on a non-empty run of decimal digits (radix 10): the double nearest to the
  integer that the digits denote, as the engine of Node computes it (the language
  standard fixes this result for runs of up to 20 significant digits).
\<close>

definition parseInt :: "string \<Rightarrow> jsnum" where
  "parseInt ds = toDouble (decimal ds)"

text \<open>The value that \<open>x++\<close> stores back: \<open>x + 1\<close> in double arithmetic.\<close>

definition increment :: "jsnum \<Rightarrow> jsnum" where
  "increment x = (case x of Fin n \<Rightarrow> toDouble (n + 1) | Infinity \<Rightarrow> Infinity)"

fun stripPrefix :: "string \<Rightarrow> string \<Rightarrow> string option" where
  "stripPrefix [] s = Some s"
| "stripPrefix (p # ps) [] = None"
| "stripPrefix (p # ps) (c # cs) = (if p = c then stripPrefix ps cs else None)"

text \<open>The regex fragment \<open>,?\<close>: consume one comma when it is there.\<close>

fun optComma :: "string \<Rightarrow> string" where
  "optComma [] = []"
| "optComma (c # cs) = (if c = CHR 0x2C then cs else c # cs)"

text \<open>
  \<open>line.match(/^@@ -(\d+),?\d* \+(\d+),?\d* @@/)\<close>: \<^const>\<open>None\<close> for \<open>null\<close>, otherwise the
  two capture groups. The matcher below follows the one path that the backtracking
  search of the regular expression tries first: the longest run of digits for a group, a
  comma when there is one, the longest run of digits after it. The lemmas
  \<open>matchHeader_sound\<close> and \<open>matchHeader_complete\<close> show that this path succeeds
  whenever the line matches the pattern at all, so the search never returns another one.
\<close>

definition matchHeader :: "string \<Rightarrow> (string \<times> string) option" where
  "matchHeader line =
     (case stripPrefix ''@@ -'' line of
        None \<Rightarrow> None
      | Some r1 \<Rightarrow>
          if takeWhile isDigit r1 = [] then None
          else
            (case stripPrefix '' +'' (dropWhile isDigit (optComma (dropWhile isDigit r1))) of
               None \<Rightarrow> None
             | Some r2 \<Rightarrow>
                 if takeWhile isDigit r2 = [] then None
                 else
                   (case stripPrefix '' @@'' (dropWhile isDigit (optComma (dropWhile isDigit r2))) of
                      None \<Rightarrow> None
                    | Some r3 \<Rightarrow> Some (takeWhile isDigit r1, takeWhile isDigit r2))))"

text \<open>
  The lines that the regular expression matches, read off the pattern: \<open>@@ -\<close>, digits
  (group 1), an optional comma, digits, \<open> +\<close>, digits (group 2), an optional comma,
  digits, \<open> @@\<close>, and anything after that.
\<close>

definition headerPattern :: "string \<Rightarrow> string \<Rightarrow> string \<Rightarrow> bool" where
  "headerPattern line g1 g2 =
     (\<exists>c1 d1 c2 d2 rest.
        line = ''@@ -'' @ g1 @ c1 @ d1 @ '' +'' @ g2 @ c2 @ d2 @ '' @@'' @ rest \<and>
        g1 \<noteq> [] \<and> list_all isDigit g1 \<and> (c1 = [] \<or> c1 = '','') \<and> list_all isDigit d1 \<and>
        g2 \<noteq> [] \<and> list_all isDigit g2 \<and> (c2 = [] \<or> c2 = '','') \<and> list_all isDigit d2)"

text \<open>
  The header form as the specification documents it, \<open>@@ -N[,M] +N[,M] @@\<close>: \<open>N\<close> and
  \<open>M\<close> are non-empty runs of digits and a part in brackets is there as a whole or not at
  all. It differs from the regular expression of the code, which also takes a comma that
  no count follows.
\<close>

fun optCount :: "string \<Rightarrow> string" where
  "optCount [] = []"
| "optCount (c # cs) =
     (if c = CHR 0x2C \<and> takeWhile isDigit cs \<noteq> [] then dropWhile isDigit cs else c # cs)"

definition documentedHeader :: "string \<Rightarrow> bool" where
  "documentedHeader line =
     (case stripPrefix ''@@ -'' line of
        None \<Rightarrow> False
      | Some r1 \<Rightarrow>
          takeWhile isDigit r1 \<noteq> [] \<and>
          (case stripPrefix '' +'' (optCount (dropWhile isDigit r1)) of
             None \<Rightarrow> False
           | Some r2 \<Rightarrow>
               takeWhile isDigit r2 \<noteq> [] \<and>
               stripPrefix '' @@'' (optCount (dropWhile isDigit r2)) \<noteq> None))"

section \<open>The patch parser\<close>

text \<open>One call of the \<open>forEach\<close> callback of \<open>parsePatch\<close> (lines 92 to 107).\<close>

definition step :: "parse_state \<Rightarrow> string \<Rightarrow> parse_state" where
  "step st line =
     (if startsWith line ''@@'' then
        \<lparr> parse_state.hunks =
            (case currentHunk st of Some h \<Rightarrow> hunks st @ [h] | None \<Rightarrow> hunks st),
          currentHunk = Some \<lparr> header = line, lines = [] \<rparr>,
          baseLine = (case matchHeader line of Some m \<Rightarrow> parseInt (fst m) | None \<Rightarrow> baseLine st),
          headLine = (case matchHeader line of Some m \<Rightarrow> parseInt (snd m) | None \<Rightarrow> headLine st) \<rparr>
      else
        (case currentHunk st of
           None \<Rightarrow> st
         | Some h \<Rightarrow>
             if startsWith line ''-'' then
               st \<lparr> currentHunk := Some (h \<lparr> lines := lines h @
                       [\<lparr> baseLineNumber = Some (baseLine st), headLineNumber = None,
                          content = line \<rparr>] \<rparr>),
                    baseLine := increment (baseLine st) \<rparr>
             else if startsWith line ''+'' then
               st \<lparr> currentHunk := Some (h \<lparr> lines := lines h @
                       [\<lparr> baseLineNumber = None, headLineNumber = Some (headLine st),
                          content = line \<rparr>] \<rparr>),
                    headLine := increment (headLine st) \<rparr>
             else
               st \<lparr> currentHunk := Some (h \<lparr> lines := lines h @
                       [\<lparr> baseLineNumber = Some (baseLine st),
                          headLineNumber = Some (headLine st), content = line \<rparr>] \<rparr>),
                    baseLine := increment (baseLine st),
                    headLine := increment (headLine st) \<rparr>))"

definition initial :: parse_state where
  "initial = \<lparr> parse_state.hunks = [], currentHunk = None, baseLine = Fin 0, headLine = Fin 0 \<rparr>"

text \<open>
  Line 109: a hunk that is still open is pushed; line 110 returns \<open>hunks\<close>. The
  parameter \<open>patch\<close> of the source is \<open>patchText\<close> here, \<open>patch\<close> being a field name.
\<close>

definition finish :: "parse_state \<Rightarrow> Hunk list" where
  "finish st = (case currentHunk st of Some h \<Rightarrow> hunks st @ [h] | None \<Rightarrow> hunks st)"

definition parsePatch :: "string \<Rightarrow> Hunk list" where
  "parsePatch patchText = finish (foldl step initial (split_nl patchText))"

section \<open>Vocabulary for the properties of the parser\<close>

text \<open>A header line is one that the callback's first test accepts.\<close>

definition isHeader :: "string \<Rightarrow> bool" where
  "isHeader l = startsWith l ''@@''"

text \<open>
  The numbering of the lines of one hunk as section 4.4 of the specification words it,
  starting from given counters: a removed line takes the base counter, an added line the
  head counter, any other line both, and each counter that was taken is incremented (as
  a JavaScript number).
\<close>

fun number_lines :: "jsnum \<Rightarrow> jsnum \<Rightarrow> string list \<Rightarrow> LineRecord list" where
  "number_lines b h [] = []"
| "number_lines b h (l # ls) =
     (if startsWith l ''-'' then
        \<lparr> baseLineNumber = Some b, headLineNumber = None, content = l \<rparr>
          # number_lines (increment b) h ls
      else if startsWith l ''+'' then
        \<lparr> baseLineNumber = None, headLineNumber = Some h, content = l \<rparr>
          # number_lines b (increment h) ls
      else
        \<lparr> baseLineNumber = Some b, headLineNumber = Some h, content = l \<rparr>
          # number_lines (increment b) (increment h) ls)"

text \<open>The counters after a run of lines that holds no header.\<close>

fun baseAfter :: "jsnum \<Rightarrow> string list \<Rightarrow> jsnum" where
  "baseAfter b [] = b"
| "baseAfter b (l # ls) = baseAfter (if startsWith l ''+'' then b else increment b) ls"

fun headAfter :: "jsnum \<Rightarrow> string list \<Rightarrow> jsnum" where
  "headAfter h [] = h"
| "headAfter h (l # ls) = headAfter (if startsWith l ''-'' then h else increment h) ls"

text \<open>The shape of a record that the three branches of the callback can build.\<close>

definition recordOk :: "LineRecord \<Rightarrow> bool" where
  "recordOk r =
     ((startsWith (content r) ''-'' \<longrightarrow> baseLineNumber r \<noteq> None \<and> headLineNumber r = None) \<and>
      (startsWith (content r) ''+'' \<longrightarrow> headLineNumber r \<noteq> None \<and> baseLineNumber r = None) \<and>
      (\<not> startsWith (content r) ''-'' \<and> \<not> startsWith (content r) ''+'' \<longrightarrow>
         baseLineNumber r \<noteq> None \<and> headLineNumber r \<noteq> None) \<and>
      \<not> (baseLineNumber r = None \<and> headLineNumber r = None))"

text \<open>A record none of whose line numbers is \<open>Infinity\<close>.\<close>

definition finiteRecord :: "LineRecord \<Rightarrow> bool" where
  "finiteRecord r = (baseLineNumber r \<noteq> Some Infinity \<and> headLineNumber r \<noteq> Some Infinity)"

text \<open>The counters that a header line leaves: its two numbers, or the ones before it.\<close>

definition startBase :: "jsnum \<Rightarrow> string \<Rightarrow> jsnum" where
  "startBase b l = (case matchHeader l of Some m \<Rightarrow> parseInt (fst m) | None \<Rightarrow> b)"

definition startHead :: "jsnum \<Rightarrow> string \<Rightarrow> jsnum" where
  "startHead h l = (case matchHeader l of Some m \<Rightarrow> parseInt (snd m) | None \<Rightarrow> h)"

abbreviation bodyOf :: "string list \<Rightarrow> string list" where
  "bodyOf ls \<equiv> takeWhile (\<lambda>x. \<not> isHeader x) ls"

abbreviation afterBody :: "string list \<Rightarrow> string list" where
  "afterBody ls \<equiv> dropWhile (\<lambda>x. \<not> isHeader x) ls"

text \<open>
  The result of the parser described hunk by hunk: lines before the first header are
  skipped, and each header takes the lines up to the next header.
\<close>

function hunksFrom :: "jsnum \<Rightarrow> jsnum \<Rightarrow> string list \<Rightarrow> Hunk list" where
  "hunksFrom b h [] = []"
| "hunksFrom b h (l # ls) =
     (if isHeader l then
        \<lparr> header = l, lines = number_lines (startBase b l) (startHead h l) (bodyOf ls) \<rparr>
          # hunksFrom (baseAfter (startBase b l) (bodyOf ls)) (headAfter (startHead h l) (bodyOf ls))
              (afterBody ls)
      else hunksFrom b h ls)"
  by pat_completeness auto
termination
  by (relation "measure (\<lambda>(b, h, ls). length ls)") (auto simp: length_dropWhile_le less_Suc_eq_le)

text \<open>
  The text of one hunk, as the round-trip property rebuilds it: the header and the
  contents of the records, joined by newlines (\<open>Array.prototype.join\<close> with a newline).
\<close>

definition joinLines :: "string list \<Rightarrow> string" where
  "joinLines ls = (case ls of [] \<Rightarrow> [] | l # rest \<Rightarrow> l @ concat (map (\<lambda>x. CHR 0x0A # x) rest))"

definition reconstruct :: "Hunk \<Rightarrow> string" where
  "reconstruct hk = joinLines (header hk # map content (lines hk))"

text \<open>
  A well-formed patch text, as far as the round trip needs it: every header line
  matches the regular expression of the code, as every header of the documented form
  does.
\<close>

definition wellFormed :: "string \<Rightarrow> bool" where
  "wellFormed p = list_all (\<lambda>l. matchHeader l \<noteq> None) (filter isHeader (split_nl p))"

abbreviation flatten :: "Hunk \<Rightarrow> string list" where
  "flatten hk \<equiv> header hk # map content (lines hk)"

text \<open>
  A patch text whose line numbers stay where doubles count exactly: it has at most
  \<open>2^53\<close> lines, and each number of each of its headers, plus the number of its lines,
  is at most \<open>2^53\<close>.
\<close>

definition withinExact :: "string \<Rightarrow> bool" where
  "withinExact p =
     (length (split_nl p) \<le> 2 ^ 53 \<and>
      list_all
        (\<lambda>l. case matchHeader l of
                None \<Rightarrow> True
              | Some m \<Rightarrow> decimal (fst m) + length (split_nl p) \<le> 2 ^ 53 \<and>
                          decimal (snd m) + length (split_nl p) \<le> 2 ^ 53)
        (split_nl p))"

section \<open>The rate-limit guard and the diff endpoint\<close>

text \<open>The condition of line 29; optional chaining gives \<open>undefined\<close> without a response.\<close>

definition isRateLimit :: "request_error \<Rightarrow> bool" where
  "isRateLimit err =
     (case response err of
        None \<Rightarrow> False
      | Some r \<Rightarrow> error_response.status r = 403 \<and> headers r ''x-ratelimit-remaining'' = Some ''0'')"

text \<open>
  \<open>makeGitHubRequest\<close> (lines 25 to 34). The upstream call is a parameter; \<^const>\<open>Inl\<close> is
  a rejected promise (a thrown error), \<open>Inr (Inl signal)\<close> the returned signal object and
  \<open>Inr (Inr r)\<close> the returned upstream response.
\<close>

definition makeGitHubRequest ::
  "(string \<Rightarrow> request_error + 'a) \<Rightarrow> string \<Rightarrow> request_error + (RateLimitSignal + 'a)" where
  "makeGitHubRequest get url =
     (case get url of
        Inr r \<Rightarrow> Inr (Inr r)
      | Inl err \<Rightarrow>
          if isRateLimit err then
            Inr (Inl \<lparr> error = ''GitHub API rate limit exceeded'',
                       retry_after = (case response err of
                                        None \<Rightarrow> None
                                      | Some r \<Rightarrow> headers r ''x-ratelimit-reset'') \<rparr>)
          else Inl err)"

text \<open>
  The callback of \<open>files.map\<close> (lines 73 to 78); an absent and an empty patch are both
  falsy. \<open>String.prototype.toUpperCase\<close> is the language's own function, with the case
  tables of Unicode; it is a parameter here, so nothing is assumed of what it computes.
\<close>

definition fileDiff :: "(string \<Rightarrow> string) \<Rightarrow> changed_file \<Rightarrow> FileDiff" where
  "fileDiff toUpperCase file =
     \<lparr> changeKind = toUpperCase (changed_file.status file),
       headFile = \<lparr> path = filename file \<rparr>,
       baseFile = \<lparr> path = filename file \<rparr>,
       hunks = (case patch file of
                  None \<Rightarrow> []
                | Some p \<Rightarrow> if p = [] then [] else parsePatch p) \<rparr>"

definition commitUrl :: "string \<Rightarrow> string \<Rightarrow> string \<Rightarrow> string" where
  "commitUrl owner repository oid =
     ''/repos/'' @ owner @ ''/'' @ repository @ ''/commits/'' @ oid"

definition compareUrl :: "string \<Rightarrow> string \<Rightarrow> string \<Rightarrow> string \<Rightarrow> string" where
  "compareUrl owner repository parentOid oid =
     ''/repos/'' @ owner @ ''/'' @ repository @ ''/compare/'' @ parentOid @ ''...'' @ oid"

text \<open>\<open>commitResponse.data.parents?.[0]?.sha\<close> (line 67).\<close>

definition firstParentSha :: "commit_data \<Rightarrow> string option" where
  "firstParentSha d =
     (case parents d of
        None \<Rightarrow> None
      | Some [] \<Rightarrow> None
      | Some (p # ps) \<Rightarrow> sha p)"

text \<open>The \<open>catch\<close> block of the diff endpoint (line 82).\<close>

definition diffFailure :: "request_error \<Rightarrow> reply" where
  "diffFailure err =
     \<lparr> code = (case response err of
                 None \<Rightarrow> 500
               | Some r \<Rightarrow> if error_response.status r = 0 then 500 else error_response.status r),
       json = ErrorBody ''Error fetching commit diff'' (message err) \<rparr>"

text \<open>
  The diff endpoint (lines 60 to 84). The result is the list of upstream URLs that were
  requested, in order, and the reply. An empty \<open>sha\<close> is falsy like an absent one. The
  two upstream calls are two parameters, one for each type of payload; with payloads of
  these types the only errors that reach the \<open>catch\<close> block are the ones that
  \<open>makeGitHubRequest\<close> raises again. The first parameter is the language's
  \<open>toUpperCase\<close>.
\<close>

definition diffHandler ::
  "(string \<Rightarrow> string) \<Rightarrow>
   (string \<Rightarrow> request_error + commit_data api_response) \<Rightarrow>
   (string \<Rightarrow> request_error + compare_data api_response) \<Rightarrow>
   string \<Rightarrow> string \<Rightarrow> string \<Rightarrow> string list \<times> reply" where
  "diffHandler toUpperCase getCommit getCompare owner repository oid =
     (case makeGitHubRequest getCommit (commitUrl owner repository oid) of
        Inl err \<Rightarrow> ([commitUrl owner repository oid], diffFailure err)
      | Inr (Inl signal) \<Rightarrow>
          ([commitUrl owner repository oid], \<lparr> code = 429, json = SignalBody signal \<rparr>)
      | Inr (Inr commitResponse) \<Rightarrow>
          (case firstParentSha (data commitResponse) of
             None \<Rightarrow>
               ([commitUrl owner repository oid],
                \<lparr> code = 400, json = MessageBody ''No parent commit found'' \<rparr>)
           | Some parentOid \<Rightarrow>
               if parentOid = [] then
                 ([commitUrl owner repository oid],
                  \<lparr> code = 400, json = MessageBody ''No parent commit found'' \<rparr>)
               else
                 (case makeGitHubRequest getCompare
                         (compareUrl owner repository parentOid oid) of
                    Inl err \<Rightarrow>
                      ([commitUrl owner repository oid,
                        compareUrl owner repository parentOid oid], diffFailure err)
                  | Inr (Inl signal) \<Rightarrow>
                      ([commitUrl owner repository oid,
                        compareUrl owner repository parentOid oid],
                       \<lparr> code = 429, json = SignalBody signal \<rparr>)
                  | Inr (Inr diffResponse) \<Rightarrow>
                      ([commitUrl owner repository oid,
                        compareUrl owner repository parentOid oid],
                       \<lparr> code = 200,
                         json = FilesBody (map (fileDiff toUpperCase)
                                           (files (data diffResponse))) \<rparr>))))"

section \<open>Sample inputs\<close>

text \<open>
  A patch text with a line before the first header, a hunk whose header matches the
  pattern, and a hunk whose header does not; then its two hunks and the state of the
  parser when the first hunk is complete.
\<close>

definition samplePatch :: string where
  "samplePatch =
     ''intro'' @ [CHR 0x0A] @ ''@@ -3,3 +5,2 @@ f'' @ [CHR 0x0A] @ '' ctx'' @ [CHR 0x0A]
     @ ''-old'' @ [CHR 0x0A] @ ''-old2'' @ [CHR 0x0A] @ ''+new'' @ [CHR 0x0A] @ '' end''
     @ [CHR 0x0A] @ ''@@ bad @@'' @ [CHR 0x0A] @ '' tail''"

definition sampleHunk :: Hunk where
  "sampleHunk =
     \<lparr> header = ''@@ -3,3 +5,2 @@ f'',
       lines = [\<lparr> baseLineNumber = Some (Fin 3), headLineNumber = Some (Fin 5), content = '' ctx'' \<rparr>,
                \<lparr> baseLineNumber = Some (Fin 4), headLineNumber = None, content = ''-old'' \<rparr>,
                \<lparr> baseLineNumber = Some (Fin 5), headLineNumber = None, content = ''-old2'' \<rparr>,
                \<lparr> baseLineNumber = None, headLineNumber = Some (Fin 6), content = ''+new'' \<rparr>,
                \<lparr> baseLineNumber = Some (Fin 6), headLineNumber = Some (Fin 7), content = '' end'' \<rparr>] \<rparr>"

definition sampleTail :: Hunk where
  "sampleTail =
     \<lparr> header = ''@@ bad @@'',
       lines = [\<lparr> baseLineNumber = Some (Fin 7), headLineNumber = Some (Fin 8), content = '' tail'' \<rparr>] \<rparr>"

definition sampleState :: parse_state where
  "sampleState =
     \<lparr> parse_state.hunks = [], currentHunk = Some sampleHunk, baseLine = Fin 7, headLine = Fin 8 \<rparr>"

text \<open>A patch text of two hunks whose headers both match the pattern, and its second hunk.\<close>

definition cleanPatch :: string where
  "cleanPatch =
     ''@@ -1 +1 @@'' @ [CHR 0x0A] @ ''-a'' @ [CHR 0x0A] @ ''+b'' @ [CHR 0x0A]
     @ ''@@ -10,2 +12,3 @@'' @ [CHR 0x0A] @ '' x'' @ [CHR 0x0A] @ ''+y''"

definition cleanHunk :: Hunk where
  "cleanHunk =
     \<lparr> header = ''@@ -10,2 +12,3 @@'',
       lines = [\<lparr> baseLineNumber = Some (Fin 10), headLineNumber = Some (Fin 12), content = '' x'' \<rparr>,
                \<lparr> baseLineNumber = None, headLineNumber = Some (Fin 13), content = ''+y'' \<rparr>] \<rparr>"

text \<open>A patch text whose first header does not match the pattern.\<close>

definition badFirstPatch :: string where
  "badFirstPatch = ''@@ bad'' @ [CHR 0x0A] @ '' ctx'' @ [CHR 0x0A] @ ''+new''"

text \<open>Upstream errors: an exhausted quota and a commit that does not exist.\<close>

definition quotaError :: request_error where
  "quotaError =
     \<lparr> response = Some \<lparr> error_response.status = 403,
                          headers = [''x-ratelimit-remaining'' \<mapsto> ''0'',
                                     ''x-ratelimit-reset'' \<mapsto> ''1700000000''] \<rparr>,
       message = ''Request failed with status code 403'' \<rparr>"

definition notFoundError :: request_error where
  "notFoundError =
     \<lparr> response = Some \<lparr> error_response.status = 404, headers = Map.empty \<rparr>,
       message = ''Request failed with status code 404'' \<rparr>"

text \<open>
  Upstream payloads: a merge commit, a root commit, and a compare result with two binary
  files.
\<close>

definition mergeCommit :: "commit_data api_response" where
  "mergeCommit = \<lparr> data = \<lparr> parents = Some [\<lparr> sha = Some ''aaa'' \<rparr>, \<lparr> sha = Some ''bbb'' \<rparr>] \<rparr> \<rparr>"


definition binaryCompare :: "compare_data api_response" where
  "binaryCompare =
     \<lparr> data = \<lparr> files = [\<lparr> changed_file.status = ''modified'', filename = ''logo.png'',
                            patch = None \<rparr>,
                          \<lparr> changed_file.status = ''added'', filename = ''icon.ico'',
                            patch = None \<rparr>] \<rparr> \<rparr>"

text \<open>
  Upper-casing of ASCII text, the part of \<open>toUpperCase\<close> that the upstream status words
  need; it stands for the language's function in the sample calls.
\<close>

definition isAscii :: "char \<Rightarrow> bool" where
  "isAscii c = ((of_char c :: nat) < 128)"

definition upperChar :: "char \<Rightarrow> char" where
  "upperChar c =
     (if 97 \<le> (of_char c :: nat) \<and> (of_char c :: nat) \<le> 122
      then char_of ((of_char c :: nat) - 32) else c)"

definition asciiUpperCase :: "string \<Rightarrow> string" where
  "asciiUpperCase s = map upperChar s"

section \<open>JavaScript numbers\<close>

lemma toDouble_exact: "n \<le> 2 ^ 53 \<Longrightarrow> toDouble n = Fin n"
proof (cases "n < 2 ^ 53")
  case True
  then have "ulp n = 1" by (simp add: ulp.simps)
  moreover have "n < (2::nat) ^ 1024" using True
    by (rule less_le_trans) simp
  ultimately show ?thesis by (simp add: toDouble_def)
next
  case False
  assume "n \<le> 2 ^ 53"
  with False have n: "n = 2 ^ 53" by simp
  show ?thesis unfolding n by (simp add: toDouble_def ulp.simps)
qed

lemma increment_exact: "n < 2 ^ 53 \<Longrightarrow> increment (Fin n) = Fin (n + 1)"
  by (simp add: increment_def toDouble_exact)

lemma parseInt_exact: "decimal ds \<le> 2 ^ 53 \<Longrightarrow> parseInt ds = Fin (decimal ds)"
  by (simp add: parseInt_def toDouble_exact)

lemma decimal_big: "decimal (CHR ''2'' # replicate 308 (CHR ''0'')) = 2 * 10 ^ 308"
proof -
  have z: "\<And>n k. foldl (\<lambda>n c. 10 * n + digitVal c) n (replicate k (CHR ''0'')) = n * 10 ^ k"
  proof -
    fix n k show "foldl (\<lambda>n c. 10 * n + digitVal c) n (replicate k (CHR ''0'')) = n * 10 ^ k"
      by (induction k arbitrary: n) (simp_all add: digitVal_def)
  qed
  have d2: "digitVal (CHR ''2'') = 2" by (simp add: digitVal_def)
  show ?thesis by (simp add: decimal_def z d2)
qed

lemma parseInt_big: "parseInt (CHR ''2'' # replicate 308 (CHR ''0'')) = Infinity"
  unfolding parseInt_def decimal_big by (simp add: toDouble_def ulp.simps)

lemma increment_limit: "increment (Fin (2 ^ 53)) = Fin (2 ^ 53)"
  by (simp add: increment_def toDouble_def ulp.simps)

section \<open>The header pattern\<close>

lemma stripPrefix_append: "stripPrefix p (p @ s) = Some s"
  by (induction p) auto

lemma stripPrefix_Some: "stripPrefix p s = Some r \<Longrightarrow> s = p @ r"
  by (induction p s rule: stripPrefix.induct) (auto split: if_splits)

lemma space_not_digit: "\<not> isDigit CHR 0x20" "\<not> isDigit CHR 0x2C"
  by (simp_all add: isDigit_def)

lemma optComma_cases: "\<exists>c. (c = [] \<or> c = '','') \<and> s = c @ optComma s"
  by (cases s) auto

lemma group_greedy:
  assumes "list_all isDigit g" and "c = [] \<or> c = '',''" and "list_all isDigit d"
  shows "takeWhile isDigit (g @ c @ d @ CHR 0x20 # t) = (if c = [] then g @ d else g) \<and>
         dropWhile isDigit (optComma (dropWhile isDigit (g @ c @ d @ CHR 0x20 # t))) = CHR 0x20 # t"
proof (cases "c = []")
  case True
  have dg: "\<And>x. x \<in> set (g @ d) \<Longrightarrow> isDigit x" using assms by (auto simp: list_all_iff)
  have "takeWhile isDigit ((g @ d) @ CHR 0x20 # t) = g @ d"
    using takeWhile_append2 [of "g @ d" isDigit "CHR 0x20 # t"] dg by (simp add: space_not_digit)
  moreover have "dropWhile isDigit ((g @ d) @ CHR 0x20 # t) = CHR 0x20 # t"
    using dropWhile_append2 [of "g @ d" isDigit "CHR 0x20 # t"] dg by (simp add: space_not_digit)
  ultimately show ?thesis using True by (simp add: space_not_digit)
next
  case False
  then have c: "c = '',''" using assms(2) by simp
  have dg: "\<And>x. x \<in> set g \<Longrightarrow> isDigit x" and dd: "\<And>x. x \<in> set d \<Longrightarrow> isDigit x"
    using assms by (auto simp: list_all_iff)
  have "takeWhile isDigit (g @ CHR 0x2C # d @ CHR 0x20 # t) = g"
    using takeWhile_append2 [of g isDigit "CHR 0x2C # d @ CHR 0x20 # t"] dg
    by (simp add: space_not_digit)
  moreover have "dropWhile isDigit (g @ CHR 0x2C # d @ CHR 0x20 # t) = CHR 0x2C # d @ CHR 0x20 # t"
    using dropWhile_append2 [of g isDigit "CHR 0x2C # d @ CHR 0x20 # t"] dg
    by (simp add: space_not_digit)
  moreover have "dropWhile isDigit (d @ CHR 0x20 # t) = CHR 0x20 # t"
    using dropWhile_append2 [of d isDigit "CHR 0x20 # t"] dd by (simp add: space_not_digit)
  ultimately show ?thesis using c by simp
qed

lemma matchHeader_complete:
  assumes "headerPattern line g1 g2"
  shows "\<exists>m1 m2. matchHeader line = Some (m1, m2) \<and> take (length g1) m1 = g1 \<and>
                  take (length g2) m2 = g2"
proof -
  from assms obtain c1 d1 c2 d2 rest where
    line: "line = ''@@ -'' @ g1 @ c1 @ d1 @ '' +'' @ g2 @ c2 @ d2 @ '' @@'' @ rest"
    and g1: "g1 \<noteq> []" "list_all isDigit g1" and c1: "c1 = [] \<or> c1 = '',''"
    and d1: "list_all isDigit d1"
    and g2: "g2 \<noteq> []" "list_all isDigit g2" and c2: "c2 = [] \<or> c2 = '',''"
    and d2: "list_all isDigit d2"
    unfolding headerPattern_def by blast
  let ?t2 = "CHR 0x40 # CHR 0x40 # rest"
  let ?r2 = "g2 @ c2 @ d2 @ CHR 0x20 # ?t2"
  let ?t1 = "CHR 0x2B # ?r2"
  let ?r1 = "g1 @ c1 @ d1 @ CHR 0x20 # ?t1"
  have s1: "stripPrefix ''@@ -'' line = Some ?r1"
    using stripPrefix_append [of "''@@ -''" ?r1] by (simp add: line)
  note a = group_greedy [OF g1(2) c1 d1, of ?t1]
  note b = group_greedy [OF g2(2) c2 d2, of ?t2]
  have s2: "stripPrefix '' +'' (CHR 0x20 # ?t1) = Some ?r2" by simp
  have s3: "stripPrefix '' @@'' (CHR 0x20 # ?t2) = Some rest" by simp
  have n1: "takeWhile isDigit ?r1 \<noteq> []" using a g1(1) by (simp split: if_splits)
  have n2: "takeWhile isDigit ?r2 \<noteq> []" using b g2(1) by (simp split: if_splits)
  have "matchHeader line = Some (takeWhile isDigit ?r1, takeWhile isDigit ?r2)"
    unfolding matchHeader_def s1 option.case
    using n1 n2 by (simp only: a [THEN conjunct2] b [THEN conjunct2] s2 s3 option.case if_False)
  moreover have "take (length g1) (takeWhile isDigit ?r1) = g1"
    by (simp only: a [THEN conjunct1]) simp
  moreover have "take (length g2) (takeWhile isDigit ?r2) = g2"
    by (simp only: b [THEN conjunct1]) simp
  ultimately show ?thesis by blast
qed

lemma matchHeader_sound:
  assumes "matchHeader line = Some (g1, g2)"
  shows "headerPattern line g1 g2"
proof -
  from assms obtain r1 where s1: "stripPrefix ''@@ -'' line = Some r1"
    by (auto simp: matchHeader_def split: option.splits)
  let ?k1 = "optComma (dropWhile isDigit r1)"
  from assms s1 obtain r2 where n1: "takeWhile isDigit r1 \<noteq> []"
    and s2: "stripPrefix '' +'' (dropWhile isDigit ?k1) = Some r2"
    by (auto simp: matchHeader_def split: option.splits if_splits)
  let ?k2 = "optComma (dropWhile isDigit r2)"
  from assms s1 s2 n1 obtain r3 where n2: "takeWhile isDigit r2 \<noteq> []"
    and s3: "stripPrefix '' @@'' (dropWhile isDigit ?k2) = Some r3"
    and g: "g1 = takeWhile isDigit r1" "g2 = takeWhile isDigit r2"
    by (auto simp: matchHeader_def split: option.splits if_splits)
  obtain c1 where c1: "c1 = [] \<or> c1 = '',''" "dropWhile isDigit r1 = c1 @ ?k1"
    using optComma_cases [of "dropWhile isDigit r1"] by blast
  obtain c2 where c2: "c2 = [] \<or> c2 = '',''" "dropWhile isDigit r2 = c2 @ ?k2"
    using optComma_cases [of "dropWhile isDigit r2"] by blast
  have e0: "line = ''@@ -'' @ r1" using stripPrefix_Some [OF s1] .
  have e1: "r1 = g1 @ c1 @ ?k1"
    using takeWhile_dropWhile_id [of isDigit r1] by (simp only: g c1(2) [symmetric])
  have e2: "?k1 = takeWhile isDigit ?k1 @ '' +'' @ r2"
    using takeWhile_dropWhile_id [of isDigit ?k1] stripPrefix_Some [OF s2] by simp
  have e3: "r2 = g2 @ c2 @ ?k2"
    using takeWhile_dropWhile_id [of isDigit r2] by (simp only: g c2(2) [symmetric])
  have e4: "?k2 = takeWhile isDigit ?k2 @ '' @@'' @ r3"
    using takeWhile_dropWhile_id [of isDigit ?k2] stripPrefix_Some [OF s3] by simp
  have "line = ''@@ -'' @ g1 @ c1 @ takeWhile isDigit ?k1 @ '' +'' @ g2 @ c2 @
                 takeWhile isDigit ?k2 @ '' @@'' @ r3"
    using e0 e1 e2 e3 e4 by metis
  moreover have "list_all isDigit g1" "list_all isDigit g2"
    "list_all isDigit (takeWhile isDigit ?k1)" "list_all isDigit (takeWhile isDigit ?k2)"
    by (auto simp: g list_all_iff dest: set_takeWhileD)
  ultimately show ?thesis
    unfolding headerPattern_def using c1(1) c2(1) n1 n2 g by blast
qed

section \<open>The parser, hunk by hunk\<close>

lemma minus_not_plus: "startsWith l ''-'' \<Longrightarrow> \<not> startsWith l ''+''"
  by (cases l) (auto simp: startsWith_def)

lemma step_body:
  assumes "\<not> isHeader l" "currentHunk st = Some hk"
  shows "step st l = st \<lparr> currentHunk := Some (hk \<lparr> lines := lines hk @ number_lines (baseLine st) (headLine st) [l] \<rparr>),
           baseLine := baseAfter (baseLine st) [l], headLine := headAfter (headLine st) [l] \<rparr>"
  using assms by (auto simp: step_def isHeader_def minus_not_plus)

lemma foldl_step_body:
  assumes "\<forall>l \<in> set body. \<not> isHeader l" "currentHunk st = Some hk"
  shows "foldl step st body = st \<lparr> currentHunk := Some (hk \<lparr> lines := lines hk @ number_lines (baseLine st) (headLine st) body \<rparr>),
           baseLine := baseAfter (baseLine st) body, headLine := headAfter (headLine st) body \<rparr>"
  using assms
proof (induction body arbitrary: st hk)
  case Nil
  then show ?case by simp
next
  case (Cons l body)
  have nh: "\<not> isHeader l" and rest: "\<forall>x \<in> set body. \<not> isHeader x" using Cons.prems(1) by auto
  let ?st = "step st l"
  have cur: "currentHunk ?st = Some (hk \<lparr> lines := lines hk @ number_lines (baseLine st) (headLine st) [l] \<rparr>)"
    by (simp add: step_body [OF nh Cons.prems(2)])
  show ?case
    apply (simp only: foldl_Cons)
    apply (subst Cons.IH [OF rest cur])
    apply (simp add: step_body [OF nh Cons.prems(2)])
    apply (auto simp: minus_not_plus)
    done
qed

lemma foldl_step_closed:
  assumes "\<forall>l \<in> set pre. \<not> isHeader l" "currentHunk st = None"
  shows "foldl step st pre = st"
  using assms by (induction pre arbitrary: st) (auto simp: step_def isHeader_def)


lemma step_header:
  assumes "isHeader l"
  shows "step st l = \<lparr> hunks = finish st, currentHunk = Some \<lparr> header = l, lines = [] \<rparr>,
                       baseLine = startBase (baseLine st) l, headLine = startHead (headLine st) l \<rparr>"
  using assms by (simp add: step_def isHeader_def finish_def startBase_def startHead_def)

lemma finish_foldl_step:
  "currentHunk st = None \<Longrightarrow>
     finish (foldl step st ls) = hunks st @ hunksFrom (baseLine st) (headLine st) ls"
proof (induction ls arbitrary: st rule: length_induct)
  case (1 ls)
  show ?case
  proof (cases ls)
    case Nil
    then show ?thesis using "1.prems" by (simp add: finish_def)
  next
    case (Cons l ls')
    show ?thesis
    proof (cases "isHeader l")
      case False
      have "step st l = st" using False "1.prems" by (simp add: step_def isHeader_def)
      moreover have "length ls' < length ls" using Cons by simp
      ultimately show ?thesis using "1.IH" "1.prems" Cons False by simp
    next
      case True
      let ?b = "startBase (baseLine st) l" and ?h = "startHead (headLine st) l"
      let ?hk = "\<lparr> header = l, lines = number_lines ?b ?h (bodyOf ls') \<rparr>"
      let ?st1 = "step st l"
      have st1: "?st1 = \<lparr> hunks = hunks st, currentHunk = Some \<lparr> header = l, lines = [] \<rparr>,
                          baseLine = ?b, headLine = ?h \<rparr>"
        using step_header [OF True, of st] "1.prems" by (simp add: finish_def)
      have nb: "\<forall>x \<in> set (bodyOf ls'). \<not> isHeader x"
        by (auto dest: set_takeWhileD)
      have cur1: "currentHunk ?st1 = Some \<lparr> header = l, lines = [] \<rparr>" by (simp add: st1)
      let ?st2 = "foldl step ?st1 (bodyOf ls')"
      have st2: "?st2 = \<lparr> hunks = hunks st, currentHunk = Some ?hk,
                          baseLine = baseAfter ?b (bodyOf ls'), headLine = headAfter ?h (bodyOf ls') \<rparr>"
        by (subst foldl_step_body [OF nb cur1]) (simp add: st1)
      have split: "foldl step st ls = foldl step ?st2 (afterBody ls')"
      proof -
        have "ls = l # bodyOf ls' @ afterBody ls'" using Cons by simp
        then have "foldl step st ls = foldl step st (l # bodyOf ls' @ afterBody ls')" by simp
        then show ?thesis by (simp only: foldl_Cons foldl_append)
      qed
      show ?thesis
      proof (cases "afterBody ls'")
        case Nil
        have "foldl step st ls = ?st2" by (simp only: split Nil foldl_Nil)
        then have "finish (foldl step st ls) = hunks st @ [?hk]"
          by (simp only: st2) (simp add: finish_def)
        moreover have "hunksFrom (baseLine st) (headLine st) ls = [?hk]"
          by (simp only: \<open>ls = l # ls'\<close> hunksFrom.simps True if_True Nil)
        ultimately show ?thesis by simp
      next
        case (Cons l2 rest)
        have h2: "isHeader l2" using Cons hd_dropWhile [of "\<lambda>x. \<not> isHeader x" ls'] by force
        let ?st3 = "\<lparr> hunks = hunks st @ [?hk], currentHunk = None,
                        baseLine = baseAfter ?b (bodyOf ls'), headLine = headAfter ?h (bodyOf ls') \<rparr>"
        have same: "step ?st2 l2 = step ?st3 l2"
          by (simp add: step_header [OF h2] st2 finish_def)
        have "foldl step ?st2 (afterBody ls') = foldl step ?st3 (afterBody ls')"
          using Cons same by simp
        moreover have "length (afterBody ls') < length ls"
          using \<open>ls = l # ls'\<close> length_dropWhile_le [of "\<lambda>x. \<not> isHeader x" ls'] by simp
        moreover have "currentHunk ?st3 = None" by simp
        ultimately have "finish (foldl step ?st2 (afterBody ls')) =
            hunks ?st3 @ hunksFrom (baseLine ?st3) (headLine ?st3) (afterBody ls')"
          using "1.IH" by simp
        then show ?thesis using split \<open>ls = l # ls'\<close> True by simp
      qed
    qed
  qed
qed

lemma parsePatch_hunksFrom: "parsePatch p = hunksFrom (Fin 0) (Fin 0) (split_nl p)"
  using finish_foldl_step [of initial "split_nl p"] by (simp add: parsePatch_def initial_def)


lemma content_number_lines: "map content (number_lines b h ls) = ls"
  by (induction ls arbitrary: b h) auto

lemma length_number_lines: "length (number_lines b h ls) = length ls"
  by (induction ls arbitrary: b h) auto

lemma number_lines_nth:
  "i < length ls \<Longrightarrow>
     number_lines b h ls ! i =
       \<lparr> baseLineNumber = (if startsWith (ls ! i) ''+'' then None else Some (baseAfter b (take i ls))),
         headLineNumber = (if startsWith (ls ! i) ''-'' then None else Some (headAfter h (take i ls))),
         content = ls ! i \<rparr>"
proof (induction ls arbitrary: b h i)
  case Nil
  then show ?case by simp
next
  case (Cons l ls)
  show ?case
  proof (cases i)
    case 0
    then show ?thesis by (simp add: minus_not_plus)
  next
    case (Suc j)
    then have "j < length ls" using Cons.prems by simp
    then show ?thesis using Suc Cons.IH [of j]
      by (simp add: minus_not_plus)
  qed
qed

lemma number_lines_ok: "r \<in> set (number_lines b h ls) \<Longrightarrow> recordOk r"
  by (induction ls arbitrary: b h) (auto simp: recordOk_def minus_not_plus split: if_splits)

lemma hunksFrom_shape:
  "hk \<in> set (hunksFrom b h ls) \<Longrightarrow>
     \<exists>b0 h0 body.
        lines hk = number_lines (startBase b0 (header hk)) (startHead h0 (header hk)) body \<and>
        isHeader (header hk) \<and> header hk \<in> set ls \<and> set body \<subseteq> set ls \<and>
        (\<forall>x \<in> set body. \<not> isHeader x)"
proof (induction b h ls rule: hunksFrom.induct)
  case (1 b h)
  then show ?case by simp
next
  case (2 b h l ls)
  show ?case
  proof (cases "isHeader l")
    case False
    then show ?thesis using 2 by (simp; blast)
  next
    case True
    let ?hk = "\<lparr> header = l, lines = number_lines (startBase b l) (startHead h l) (bodyOf ls) \<rparr>"
    from "2.prems" True consider "hk = ?hk"
      | "hk \<in> set (hunksFrom (baseAfter (startBase b l) (bodyOf ls))
                      (headAfter (startHead h l) (bodyOf ls)) (afterBody ls))"
      by auto
    then show ?thesis
    proof cases
      case 1
      have "set (bodyOf ls) \<subseteq> set (l # ls)" by (auto dest: set_takeWhileD)
      moreover have "\<forall>x \<in> set (bodyOf ls). \<not> isHeader x" by (auto dest: set_takeWhileD)
      ultimately show ?thesis using 1 True by (intro exI [of _ b] exI [of _ h] exI [of _ "bodyOf ls"]) simp
    next
      case 2
      from "2.IH"(1) [OF True 2] obtain b0 h0 body where
        "lines hk = number_lines (startBase b0 (header hk)) (startHead h0 (header hk)) body"
        "isHeader (header hk)" "header hk \<in> set (afterBody ls)" "set body \<subseteq> set (afterBody ls)"
        "\<forall>x \<in> set body. \<not> isHeader x" by blast
      moreover have "set (afterBody ls) \<subseteq> set (l # ls)" by (auto dest: set_dropWhileD)
      ultimately show ?thesis by blast
    qed
  qed
qed

lemma hunksFrom_headers: "map header (hunksFrom b h ls) = filter isHeader ls"
proof (induction b h ls rule: hunksFrom.induct)
  case (1 b h)
  then show ?case by simp
next
  case (2 b h l ls)
  have "filter isHeader ls = filter isHeader (bodyOf ls @ afterBody ls)" by simp
  also have "\<dots> = filter isHeader (afterBody ls)"
    unfolding filter_append by (simp add: filter_empty_conv) (auto dest: set_takeWhileD)
  finally show ?case using 2 by simp
qed

lemma hunksFrom_flatten: "concat (map flatten (hunksFrom b h ls)) = afterBody ls"
proof (induction b h ls rule: hunksFrom.induct)
  case (1 b h)
  then show ?case by simp
next
  case (2 b h l ls)
  then show ?case by (simp add: content_number_lines)
qed

lemma hunksFrom_skip: "hunksFrom b h ls = hunksFrom b h (afterBody ls)"
  by (induction ls) auto

lemma take_number_lines: "take i (number_lines b h ls) = number_lines b h (take i ls)"
proof (induction ls arbitrary: b h i)
  case Nil
  then show ?case by simp
next
  case (Cons l ls)
  then show ?case by (cases i) auto
qed

lemma count_by_content:
  "length (filter (\<lambda>r. startsWith (content r) s) (number_lines b h ls)) =
     length (filter (\<lambda>l. startsWith l s) ls)"
proof -
  have "filter (\<lambda>l. startsWith l s) (map content (number_lines b h ls)) =
        map content (filter (\<lambda>r. startsWith (content r) s) (number_lines b h ls))"
    by (simp add: filter_map comp_def)
  then have "length (filter (\<lambda>l. startsWith l s) (map content (number_lines b h ls))) =
        length (filter (\<lambda>r. startsWith (content r) s) (number_lines b h ls))"
    by simp
  then show ?thesis by (simp only: content_number_lines)
qed

lemma baseAfter_exact:
  "B \<le> 2 ^ 53 \<Longrightarrow> b + length ls \<le> B \<Longrightarrow>
     baseAfter (Fin b) ls = Fin (b + length (filter (\<lambda>l. \<not> startsWith l ''+'') ls))"
proof (induction ls arbitrary: b)
  case Nil
  then show ?case by simp
next
  case (Cons l ls)
  have b: "b < 2 ^ 53" using Cons.prems by simp
  have r: "Suc b + length ls \<le> B" and r': "b + length ls \<le> B" using Cons.prems by simp_all
  show ?case
  proof (cases "startsWith l ''+''")
    case True
    then show ?thesis using Cons.IH [OF Cons.prems(1) r'] by simp
  next
    case False
    then show ?thesis using Cons.IH [OF Cons.prems(1) r] increment_exact [OF b] by simp
  qed
qed

lemma headAfter_exact:
  "B \<le> 2 ^ 53 \<Longrightarrow> h + length ls \<le> B \<Longrightarrow>
     headAfter (Fin h) ls = Fin (h + length (filter (\<lambda>l. \<not> startsWith l ''-'') ls))"
proof (induction ls arbitrary: h)
  case Nil
  then show ?case by simp
next
  case (Cons l ls)
  have h: "h < 2 ^ 53" using Cons.prems by simp
  have r: "Suc h + length ls \<le> B" and r': "h + length ls \<le> B" using Cons.prems by simp_all
  show ?case
  proof (cases "startsWith l ''-''")
    case True
    then show ?thesis using Cons.IH [OF Cons.prems(1) r'] by simp
  next
    case False
    then show ?thesis using Cons.IH [OF Cons.prems(1) r] increment_exact [OF h] by simp
  qed
qed

lemma count_compl:
  "int (length (filter (\<lambda>l. \<not> startsWith l s) ls)) =
     int (length ls) - int (length (filter (\<lambda>l. startsWith l s) ls))"
  using sum_length_filter_compl [of "\<lambda>l. startsWith l s" ls] by simp

lemma number_lines_finite:
  assumes "B \<le> 2 ^ 53" and "b + length ls \<le> B" and "h + length ls \<le> B"
    and "r \<in> set (number_lines (Fin b) (Fin h) ls)"
  shows "finiteRecord r"
proof -
  from assms(4) obtain i where i: "i < length ls" and r: "r = number_lines (Fin b) (Fin h) ls ! i"
    by (auto simp: in_set_conv_nth length_number_lines)
  have "b + length (take i ls) \<le> B" "h + length (take i ls) \<le> B"
    using assms(2,3) i by simp_all
  then have "baseAfter (Fin b) (take i ls) \<noteq> Infinity" "headAfter (Fin h) (take i ls) \<noteq> Infinity"
    using baseAfter_exact [OF assms(1)] headAfter_exact [OF assms(1)] by simp_all
  then show ?thesis by (simp add: r number_lines_nth [OF i] finiteRecord_def)
qed

lemma start_exact:
  assumes "B \<le> 2 ^ 53" and "b + Suc n \<le> B" and "h + Suc n \<le> B"
    and "\<forall>m. matchHeader l = Some m \<longrightarrow> decimal (fst m) + Suc n \<le> B \<and> decimal (snd m) + Suc n \<le> B"
  shows "\<exists>b' h'. startBase (Fin b) l = Fin b' \<and> startHead (Fin h) l = Fin h' \<and>
                 b' + n \<le> B \<and> h' + n \<le> B"
proof (cases "matchHeader l")
  case None
  then show ?thesis using assms(2,3) by (simp add: startBase_def startHead_def)
next
  case (Some m)
  with assms(4) have d: "decimal (fst m) + Suc n \<le> B" "decimal (snd m) + Suc n \<le> B" by blast+
  then have "decimal (fst m) \<le> 2 ^ 53" "decimal (snd m) \<le> 2 ^ 53" using assms(1) by linarith+
  then have "parseInt (fst m) = Fin (decimal (fst m))" "parseInt (snd m) = Fin (decimal (snd m))"
    by (simp_all only: parseInt_exact)
  then show ?thesis using Some d by (simp add: startBase_def startHead_def)
qed

lemma hunksFrom_finite:
  assumes "B \<le> 2 ^ 53" and "b + length ls \<le> B" and "h + length ls \<le> B"
    and "\<forall>l \<in> set ls. \<forall>m. matchHeader l = Some m \<longrightarrow>
           decimal (fst m) + length ls \<le> B \<and> decimal (snd m) + length ls \<le> B"
    and "hk \<in> set (hunksFrom (Fin b) (Fin h) ls)" and "r \<in> set (lines hk)"
  shows "finiteRecord r"
  using assms(2-)
proof (induction ls arbitrary: b h rule: length_induct)
  case (1 ls)
  note B = assms(1)
  show ?case
  proof (cases ls)
    case Nil
    then show ?thesis using "1.prems" by simp
  next
    case (Cons l ls')
    have len: "length ls' < length ls" and lenS: "length ls = Suc (length ls')" using Cons by simp_all
    have hyp: "\<And>x m. x \<in> set ls \<Longrightarrow> matchHeader x = Some m \<Longrightarrow>
        decimal (fst m) + length ls \<le> B \<and> decimal (snd m) + length ls \<le> B"
      using "1.prems"(3) by blast
    have sub: "\<And>ks. set ks \<subseteq> set ls \<Longrightarrow> length ks \<le> length ls \<Longrightarrow>
        \<forall>x \<in> set ks. \<forall>m. matchHeader x = Some m \<longrightarrow>
           decimal (fst m) + length ks \<le> B \<and> decimal (snd m) + length ks \<le> B"
    proof (intro ballI allI impI)
      fix ks x m
      assume ks: "set ks \<subseteq> set ls" "length ks \<le> length ls" and x: "x \<in> set ks"
        and m: "matchHeader x = Some m"
      from ks(1) x have "x \<in> set ls" by blast
      from hyp [OF this m] ks(2)
      show "decimal (fst m) + length ks \<le> B \<and> decimal (snd m) + length ks \<le> B" by linarith
    qed
    show ?thesis
    proof (cases "isHeader l")
      case False
      have "b + length ls' \<le> B" "h + length ls' \<le> B"
        using "1.prems"(1,2) lenS by linarith+
      moreover have "hk \<in> set (hunksFrom (Fin b) (Fin h) ls')"
        using "1.prems"(4) Cons False by simp
      moreover have "\<forall>x \<in> set ls'. \<forall>m. matchHeader x = Some m \<longrightarrow>
           decimal (fst m) + length ls' \<le> B \<and> decimal (snd m) + length ls' \<le> B"
        using sub [of ls'] Cons by auto
      ultimately show ?thesis using "1.IH" len "1.prems"(5) by blast
    next
      case True
      have "l \<in> set ls" using Cons by simp
      then have "\<forall>m. matchHeader l = Some m \<longrightarrow>
          decimal (fst m) + Suc (length ls') \<le> B \<and> decimal (snd m) + Suc (length ls') \<le> B"
        using hyp lenS by metis
      moreover have "b + Suc (length ls') \<le> B" "h + Suc (length ls') \<le> B"
        using "1.prems"(1,2) lenS by linarith+
      ultimately obtain b' h' where sb: "startBase (Fin b) l = Fin b'"
        and sh: "startHead (Fin h) l = Fin h'"
        and b': "b' + length ls' \<le> B" and h': "h' + length ls' \<le> B"
        using start_exact [OF B, of b "length ls'" h l] by blast
      have split: "length (bodyOf ls') + length (afterBody ls') = length ls'"
        using takeWhile_dropWhile_id [of "\<lambda>x. \<not> isHeader x" ls']
        by (metis length_append)
      let ?nb = "length (filter (\<lambda>l. \<not> startsWith l ''+'') (bodyOf ls'))"
      let ?nh = "length (filter (\<lambda>l. \<not> startsWith l ''-'') (bodyOf ls'))"
      have bb: "b' + length (bodyOf ls') \<le> B" and hb: "h' + length (bodyOf ls') \<le> B"
        using b' h' split by linarith+
      have hf: "hunksFrom (Fin b) (Fin h) ls =
          \<lparr> header = l, lines = number_lines (Fin b') (Fin h') (bodyOf ls') \<rparr>
            # hunksFrom (Fin (b' + ?nb)) (Fin (h' + ?nh)) (afterBody ls')"
        by (simp only: Cons hunksFrom.simps True if_True sb sh
            baseAfter_exact [OF B bb] headAfter_exact [OF B hb])
      from "1.prems"(4) consider
        "hk = \<lparr> header = l, lines = number_lines (Fin b') (Fin h') (bodyOf ls') \<rparr>"
        | "hk \<in> set (hunksFrom (Fin (b' + ?nb)) (Fin (h' + ?nh)) (afterBody ls'))"
        unfolding hf by auto
      then show ?thesis
      proof cases
        case 1
        then show ?thesis using number_lines_finite [OF B bb hb] "1.prems"(5) by simp
      next
        case 2
        have la: "length (afterBody ls') < length ls"
          using len length_dropWhile_le [of "\<lambda>x. \<not> isHeader x" ls'] by simp
        have "?nb \<le> length (bodyOf ls')" "?nh \<le> length (bodyOf ls')" by simp_all
        then have c1: "b' + ?nb + length (afterBody ls') \<le> B"
          and c2: "h' + ?nh + length (afterBody ls') \<le> B"
          using b' h' split by linarith+
        have "set (afterBody ls') \<subseteq> set ls" using Cons by (auto dest: set_dropWhileD)
        then have c3: "\<forall>x \<in> set (afterBody ls'). \<forall>m. matchHeader x = Some m \<longrightarrow>
           decimal (fst m) + length (afterBody ls') \<le> B \<and>
           decimal (snd m) + length (afterBody ls') \<le> B"
          using sub [of "afterBody ls'"] la by simp
        from "1.IH" la c1 c2 c3 2 "1.prems"(5) show ?thesis by blast
      qed
    qed
  qed
qed

lemma documentedHeader_matches: "documentedHeader l \<Longrightarrow> matchHeader l \<noteq> None"
proof -
  have opt: "\<And>s r. stripPrefix (CHR 0x20 # p) (optCount s) = Some r \<Longrightarrow>
      stripPrefix (CHR 0x20 # p) (dropWhile isDigit (optComma s)) = Some r" for p
  proof -
    fix s r
    assume a: "stripPrefix (CHR 0x20 # p) (optCount s) = Some r"
    show "stripPrefix (CHR 0x20 # p) (dropWhile isDigit (optComma s)) = Some r"
    proof (cases s)
      case Nil
      then show ?thesis using a by simp
    next
      case (Cons c cs)
      show ?thesis
      proof (cases "c = CHR 0x2C \<and> takeWhile isDigit cs \<noteq> []")
        case True
        then show ?thesis using a Cons by simp
      next
        case False
        then have "optCount s = c # cs" using Cons by auto
        with a have "c = CHR 0x20" by (simp split: if_splits)
        then show ?thesis using a Cons False by (simp add: space_not_digit)
      qed
    qed
  qed
  assume "documentedHeader l"
  then show ?thesis
    unfolding documentedHeader_def matchHeader_def
    by (auto split: option.splits dest!: opt)
qed

lemma split_nl_nonempty: "split_nl s \<noteq> []"
  by (induction s) (auto split: list.splits)

lemma split_nl_line: "CHR 0x0A \<notin> set l \<Longrightarrow> split_nl (l @ CHR 0x0A # s) = l # split_nl s"
  by (induction l) auto

lemma split_nl_last: "CHR 0x0A \<notin> set l \<Longrightarrow> split_nl l = [l]"
  by (induction l) auto

lemma split_nl_no_newline: "l \<in> set (split_nl s) \<Longrightarrow> CHR 0x0A \<notin> set l"
proof (induction s arbitrary: l)
  case Nil
  then show ?case by simp
next
  case (Cons c s)
  then show ?case using split_nl_nonempty [of s]
    by (auto split: if_splits list.splits)
qed

lemma split_join:
  "\<forall>x \<in> set (l # ls). CHR 0x0A \<notin> set x \<Longrightarrow> split_nl (joinLines (l # ls)) = l # ls"
proof (induction ls arbitrary: l)
  case Nil
  then show ?case by (simp add: joinLines_def split_nl_last)
next
  case (Cons a ls)
  have "joinLines (l # a # ls) = l @ CHR 0x0A # joinLines (a # ls)" by (simp add: joinLines_def)
  then show ?case using Cons by (simp add: split_nl_line)
qed

lemma roundtrip_hunk:
  assumes "hk \<in> set (parsePatch p)" and "matchHeader (header hk) \<noteq> None"
  shows "parsePatch (reconstruct hk) = [hk]"
proof -
  from assms(1) obtain b0 h0 body where
    l0: "lines hk = number_lines (startBase b0 (header hk)) (startHead h0 (header hk)) body"
    and hh: "isHeader (header hk)" and hin: "header hk \<in> set (split_nl p)"
    and bin: "set body \<subseteq> set (split_nl p)" and nh: "\<forall>x \<in> set body. \<not> isHeader x"
    using hunksFrom_shape [of hk "Fin 0" "Fin 0" "split_nl p"] by (auto simp: parsePatch_hunksFrom)
  have sb: "startBase b0 (header hk) = startBase (Fin 0) (header hk)"
    and sh: "startHead h0 (header hk) = startHead (Fin 0) (header hk)"
    using assms(2) by (auto simp: startBase_def startHead_def)
  have l: "lines hk = number_lines (startBase (Fin 0) (header hk)) (startHead (Fin 0) (header hk)) body"
    by (simp only: l0 sb sh)
  have "\<forall>x \<in> set (header hk # body). CHR 0x0A \<notin> set x"
    using hin bin split_nl_no_newline by auto
  then have "split_nl (joinLines (header hk # body)) = header hk # body" by (rule split_join)
  moreover have "reconstruct hk = joinLines (header hk # body)"
    by (simp only: reconstruct_def l content_number_lines)
  ultimately have "parsePatch (reconstruct hk) = hunksFrom (Fin 0) (Fin 0) (header hk # body)"
    by (simp only: parsePatch_hunksFrom)
  moreover have "bodyOf body = body" "afterBody body = []" using nh by simp_all
  ultimately have "parsePatch (reconstruct hk) =
      [\<lparr> header = header hk,
          lines = number_lines (startBase (Fin 0) (header hk)) (startHead (Fin 0) (header hk)) body \<rparr>]"
    using hh by simp
  then show ?thesis using l by simp
qed

lemmas parser_eval =
  parsePatch_def finish_def initial_def step_def startsWith_def matchHeader_def isDigit_def
  parseInt_exact decimal_def digitVal_def increment_exact

section \<open>The documented scenario\<close>

text \<open>
  Claim C1. Parsing the patch text \<open>@@ -1,2 +1,3 @@\<close>, \<open> context\<close>, \<open>-old\<close>, \<open>+new1\<close>,
  \<open>+new2\<close> (joined by newlines) yields exactly one hunk. Its header is the first line, and its
  records are, in order: the context line with base 1 and head 1, the removed line with
  base 2 and no head number, and the two added lines with head 2 and head 3 and no base
  number.
\<close>

theorem C1_scenario:
  "parsePatch (''@@ -1,2 +1,3 @@'' @ [CHR 0x0A] @ '' context'' @ [CHR 0x0A] @ ''-old''
                 @ [CHR 0x0A] @ ''+new1'' @ [CHR 0x0A] @ ''+new2'') =
     [\<lparr> header = ''@@ -1,2 +1,3 @@'',
        lines =
          [\<lparr> baseLineNumber = Some (Fin 1), headLineNumber = Some (Fin 1),
             content = '' context'' \<rparr>,
           \<lparr> baseLineNumber = Some (Fin 2), headLineNumber = None, content = ''-old'' \<rparr>,
           \<lparr> baseLineNumber = None, headLineNumber = Some (Fin 2), content = ''+new1'' \<rparr>,
           \<lparr> baseLineNumber = None, headLineNumber = Some (Fin 3), content = ''+new2'' \<rparr>] \<rparr>]"
  by (simp add: parser_eval)

section \<open>Line numbers of the records\<close>

lemma parse_samplePatch: "parsePatch samplePatch = [sampleHunk, sampleTail]"
  by (simp add: parser_eval samplePatch_def sampleHunk_def sampleTail_def)

lemma split_samplePatch:
  "split_nl samplePatch =
     [''intro'', ''@@ -3,3 +5,2 @@ f'', '' ctx'', ''-old'', ''-old2'', ''+new'', '' end'',
      ''@@ bad @@'', '' tail'']"
  by (simp add: samplePatch_def)

lemma withinExact_samplePatch: "withinExact samplePatch"
  by (simp add: withinExact_def split_samplePatch matchHeader_def isDigit_def decimal_def
      digitVal_def)

text \<open>
  Claim C2, as stated: the running counter is incremented after it was assigned. This
  fails from \<open>2^53\<close> on, where a double no longer counts in steps of one: in the patch
  text \<open>@@ -9007199254740992 +1 @@\<close>, \<open>-a\<close>, \<open>-b\<close> the first removed line takes the base
  number \<open>2^53\<close>, and the second one takes \<open>2^53\<close> again.
\<close>

theorem C2_line_numbers_counterexample:
  "parsePatch (''@@ -9007199254740992 +1 @@'' @ [CHR 0x0A] @ ''-a'' @ [CHR 0x0A] @ ''-b'') =
     [\<lparr> header = ''@@ -9007199254740992 +1 @@'',
        lines =
          [\<lparr> baseLineNumber = Some (Fin 9007199254740992), headLineNumber = None,
             content = ''-a'' \<rparr>,
           \<lparr> baseLineNumber = Some (Fin 9007199254740992), headLineNumber = None,
             content = ''-b'' \<rparr>] \<rparr>] \<and>
   (9007199254740992 :: nat) = 2 ^ 53"
proof -
  have "increment (Fin 9007199254740992) = Fin 9007199254740992"
    using increment_limit by simp
  then show ?thesis by (simp add: parser_eval)
qed

text \<open>
  Claim C2, amended. In a call of the callback on a line that is not a header while a
  hunk is open: a line that starts with \<open>-\<close> gets the running base counter as its base
  number and no head number, and the base counter is incremented; a line that starts with
  \<open>+\<close> gets the running head counter as its head number and no base number, and the
  head counter is incremented; any other line gets both counters, and both are
  incremented. Incrementing is \<open>++\<close> on a double; it adds exactly one to a counter below
  \<open>2^53\<close>, and it leaves a counter of \<open>2^53\<close> as it is. For every patch text, every record of every hunk of the result has a base
  number and no head number when its content starts with \<open>-\<close>, a head number and no base
  number when it starts with \<open>+\<close>, both otherwise, and never neither. When the patch
  text has at most \<open>2^53\<close> lines and each number of each of its headers, plus the number
  of its lines, is at most \<open>2^53\<close>, no line number of a record is \<open>Infinity\<close>.
\<close>

theorem C2_line_numbers:
  "(currentHunk st = Some hk \<and> \<not> isHeader l \<longrightarrow>
      (startsWith l ''-'' \<longrightarrow>
         currentHunk (step st l) = Some (hk \<lparr> lines := lines hk @
           [\<lparr> baseLineNumber = Some (baseLine st), headLineNumber = None, content = l \<rparr>] \<rparr>) \<and>
         baseLine (step st l) = increment (baseLine st) \<and> headLine (step st l) = headLine st) \<and>
      (startsWith l ''+'' \<longrightarrow>
         currentHunk (step st l) = Some (hk \<lparr> lines := lines hk @
           [\<lparr> baseLineNumber = None, headLineNumber = Some (headLine st), content = l \<rparr>] \<rparr>) \<and>
         baseLine (step st l) = baseLine st \<and> headLine (step st l) = increment (headLine st)) \<and>
      (\<not> startsWith l ''-'' \<and> \<not> startsWith l ''+'' \<longrightarrow>
         currentHunk (step st l) = Some (hk \<lparr> lines := lines hk @
           [\<lparr> baseLineNumber = Some (baseLine st), headLineNumber = Some (headLine st),
              content = l \<rparr>] \<rparr>) \<and>
         baseLine (step st l) = increment (baseLine st) \<and>
         headLine (step st l) = increment (headLine st))) \<and>
   (n < 2 ^ 53 \<longrightarrow> increment (Fin n) = Fin (n + 1)) \<and>
   increment (Fin (2 ^ 53)) = Fin (2 ^ 53) \<and>
   (\<forall>h \<in> set (parsePatch p). \<forall>r \<in> set (lines h).
      (startsWith (content r) ''-'' \<longrightarrow> baseLineNumber r \<noteq> None \<and> headLineNumber r = None) \<and>
      (startsWith (content r) ''+'' \<longrightarrow> headLineNumber r \<noteq> None \<and> baseLineNumber r = None) \<and>
      (\<not> startsWith (content r) ''-'' \<and> \<not> startsWith (content r) ''+'' \<longrightarrow>
         baseLineNumber r \<noteq> None \<and> headLineNumber r \<noteq> None) \<and>
      \<not> (baseLineNumber r = None \<and> headLineNumber r = None)) \<and>
   (withinExact p \<longrightarrow>
      (\<forall>h \<in> set (parsePatch p). \<forall>r \<in> set (lines h).
         baseLineNumber r \<noteq> Some Infinity \<and> headLineNumber r \<noteq> Some Infinity))"
proof -
  have A: "currentHunk st = Some hk \<and> \<not> isHeader l \<longrightarrow>
      (startsWith l ''-'' \<longrightarrow>
         currentHunk (step st l) = Some (hk \<lparr> lines := lines hk @
           [\<lparr> baseLineNumber = Some (baseLine st), headLineNumber = None, content = l \<rparr>] \<rparr>) \<and>
         baseLine (step st l) = increment (baseLine st) \<and> headLine (step st l) = headLine st) \<and>
      (startsWith l ''+'' \<longrightarrow>
         currentHunk (step st l) = Some (hk \<lparr> lines := lines hk @
           [\<lparr> baseLineNumber = None, headLineNumber = Some (headLine st), content = l \<rparr>] \<rparr>) \<and>
         baseLine (step st l) = baseLine st \<and> headLine (step st l) = increment (headLine st)) \<and>
      (\<not> startsWith l ''-'' \<and> \<not> startsWith l ''+'' \<longrightarrow>
         currentHunk (step st l) = Some (hk \<lparr> lines := lines hk @
           [\<lparr> baseLineNumber = Some (baseLine st), headLineNumber = Some (headLine st),
              content = l \<rparr>] \<rparr>) \<and>
         baseLine (step st l) = increment (baseLine st) \<and>
         headLine (step st l) = increment (headLine st))"
    by (auto simp: step_def isHeader_def minus_not_plus)
  have B: "n < 2 ^ 53 \<longrightarrow> increment (Fin n) = Fin (n + 1)"
    using increment_exact by blast
  have C: "\<forall>h \<in> set (parsePatch p). \<forall>r \<in> set (lines h).
      (startsWith (content r) ''-'' \<longrightarrow> baseLineNumber r \<noteq> None \<and> headLineNumber r = None) \<and>
      (startsWith (content r) ''+'' \<longrightarrow> headLineNumber r \<noteq> None \<and> baseLineNumber r = None) \<and>
      (\<not> startsWith (content r) ''-'' \<and> \<not> startsWith (content r) ''+'' \<longrightarrow>
         baseLineNumber r \<noteq> None \<and> headLineNumber r \<noteq> None) \<and>
      \<not> (baseLineNumber r = None \<and> headLineNumber r = None)"
  proof (intro ballI)
    fix h r
    assume "h \<in> set (parsePatch p)" and r: "r \<in> set (lines h)"
    then obtain b0 h0 body where
      "lines h = number_lines (startBase b0 (header h)) (startHead h0 (header h)) body"
      using hunksFrom_shape [of h "Fin 0" "Fin 0" "split_nl p"]
      by (auto simp: parsePatch_hunksFrom)
    with r have "recordOk r" using number_lines_ok by metis
    then show "(startsWith (content r) ''-'' \<longrightarrow>
          baseLineNumber r \<noteq> None \<and> headLineNumber r = None) \<and>
      (startsWith (content r) ''+'' \<longrightarrow> headLineNumber r \<noteq> None \<and> baseLineNumber r = None) \<and>
      (\<not> startsWith (content r) ''-'' \<and> \<not> startsWith (content r) ''+'' \<longrightarrow>
         baseLineNumber r \<noteq> None \<and> headLineNumber r \<noteq> None) \<and>
      \<not> (baseLineNumber r = None \<and> headLineNumber r = None)"
      unfolding recordOk_def .
  qed
  have D: "withinExact p \<longrightarrow>
      (\<forall>h \<in> set (parsePatch p). \<forall>r \<in> set (lines h).
         baseLineNumber r \<noteq> Some Infinity \<and> headLineNumber r \<noteq> Some Infinity)"
  proof (intro impI ballI)
    fix h r
    assume w: "withinExact p" and h: "h \<in> set (parsePatch p)" and r: "r \<in> set (lines h)"
    have len: "0 + length (split_nl p) \<le> 2 ^ 53"
      using w unfolding withinExact_def by simp
    have hdr: "\<forall>l \<in> set (split_nl p). \<forall>m. matchHeader l = Some m \<longrightarrow>
        decimal (fst m) + length (split_nl p) \<le> 2 ^ 53 \<and>
        decimal (snd m) + length (split_nl p) \<le> 2 ^ 53"
      using w unfolding withinExact_def list_all_iff by (auto split: option.splits)
    have "h \<in> set (hunksFrom (Fin 0) (Fin 0) (split_nl p))"
      using h by (simp only: parsePatch_hunksFrom)
    from hunksFrom_finite [OF order_refl len len hdr this r]
    show "baseLineNumber r \<noteq> Some Infinity \<and> headLineNumber r \<noteq> Some Infinity"
      unfolding finiteRecord_def .
  qed
  from A B increment_limit C D show ?thesis by (intro conjI)
qed

theorem C2_line_numbers_witness:
  "currentHunk sampleState = Some sampleHunk \<and> \<not> isHeader ''-gone'' \<and>
   startsWith ''-gone'' ''-'' \<and>
   currentHunk (step sampleState ''-gone'') =
     Some (sampleHunk \<lparr> lines := lines sampleHunk @
        [\<lparr> baseLineNumber = Some (Fin 7), headLineNumber = None, content = ''-gone'' \<rparr>] \<rparr>) \<and>
   baseLine (step sampleState ''-gone'') = Fin 8 \<and>
   headLine (step sampleState ''-gone'') = Fin 8 \<and>
   sampleHunk \<in> set (parsePatch samplePatch) \<and>
   \<lparr> baseLineNumber = None, headLineNumber = Some (Fin 6), content = ''+new'' \<rparr>
     \<in> set (lines sampleHunk) \<and>
   startsWith ''+new'' ''+'' \<and>
   headLineNumber \<lparr> baseLineNumber = None, headLineNumber = Some (Fin 6), content = ''+new'' \<rparr>
     \<noteq> None \<and>
   baseLineNumber \<lparr> baseLineNumber = None, headLineNumber = Some (Fin 6), content = ''+new'' \<rparr>
     = None \<and>
   withinExact samplePatch \<and>
   headLineNumber \<lparr> baseLineNumber = None, headLineNumber = Some (Fin 6), content = ''+new'' \<rparr>
     \<noteq> Some Infinity"
proof -
  let ?r = "\<lparr> baseLineNumber = None, headLineNumber = Some (Fin 6), content = ''+new'' \<rparr>"
  have pre: "currentHunk sampleState = Some sampleHunk \<and> \<not> isHeader ''-gone''"
    and m: "startsWith ''-gone'' ''-''" and pl: "startsWith (content ?r) ''+''"
    by (simp_all add: sampleState_def isHeader_def startsWith_def)
  have mem: "sampleHunk \<in> set (parsePatch samplePatch)" "?r \<in> set (lines sampleHunk)"
    by (simp_all add: parse_samplePatch sampleHunk_def)
  have seven: "(7::nat) < 2 ^ 53" by simp
  note c = C2_line_numbers [of sampleState sampleHunk "''-gone''" 7 samplePatch]
  from c [THEN conjunct1, rule_format, OF pre, THEN conjunct1, rule_format, OF m]
  have s: "currentHunk (step sampleState ''-gone'') =
       Some (sampleHunk \<lparr> lines := lines sampleHunk @
         [\<lparr> baseLineNumber = Some (Fin 7), headLineNumber = None, content = ''-gone'' \<rparr>] \<rparr>)"
    "baseLine (step sampleState ''-gone'') = increment (Fin 7)"
    "headLine (step sampleState ''-gone'') = Fin 8"
    by (simp_all add: sampleState_def)
  from c [THEN conjunct2, THEN conjunct1, rule_format, OF seven]
  have i: "increment (Fin 7) = Fin 8" by simp
  from c [THEN conjunct2, THEN conjunct2, THEN conjunct2, THEN conjunct1, rule_format, OF mem]
  have p: "headLineNumber ?r \<noteq> None" "baseLineNumber ?r = None"
    using pl by blast+
  from c [THEN conjunct2, THEN conjunct2, THEN conjunct2, THEN conjunct2, rule_format,
      OF withinExact_samplePatch mem]
  have f: "headLineNumber ?r \<noteq> Some Infinity" by blast
  have pl': "startsWith ''+new'' ''+''" using pl by simp
  show ?thesis
    using pre m s(1) s(2) [unfolded i] s(3) mem pl' p withinExact_samplePatch f
    by (intro conjI) blast+
qed

text \<open>
  Claim C4, as stated: in every hunk, every record with both line numbers has head number
  minus base number equal to the head start minus the base start of the hunk's header.
  This fails after a removed line: in the patch text \<open>@@ -1,2 +1 @@\<close>, \<open>-old\<close>, \<open> ctx\<close> the
  header gives the starts 1 and 1, and the context line gets base 2 and head 1. It also
  fails from \<open>2^53\<close> on: in the patch text \<open>@@ -9007199254740992 +1 @@\<close>, \<open> a\<close>, \<open> b\<close> the
  second context line gets base \<open>2^53\<close> again and head 2.
\<close>

theorem C4_context_delta_counterexample:
  "parsePatch (''@@ -1,2 +1 @@'' @ [CHR 0x0A] @ ''-old'' @ [CHR 0x0A] @ '' ctx'') =
     [\<lparr> header = ''@@ -1,2 +1 @@'',
        lines =
          [\<lparr> baseLineNumber = Some (Fin 1), headLineNumber = None, content = ''-old'' \<rparr>,
           \<lparr> baseLineNumber = Some (Fin 2), headLineNumber = Some (Fin 1),
             content = '' ctx'' \<rparr>] \<rparr>] \<and>
   matchHeader ''@@ -1,2 +1 @@'' = Some (''1'', ''1'') \<and>
   int 1 - int 2 \<noteq> int (decimal ''1'') - int (decimal ''1'') \<and>
   parsePatch (''@@ -9007199254740992 +1 @@'' @ [CHR 0x0A] @ '' a'' @ [CHR 0x0A] @ '' b'') =
     [\<lparr> header = ''@@ -9007199254740992 +1 @@'',
        lines =
          [\<lparr> baseLineNumber = Some (Fin 9007199254740992), headLineNumber = Some (Fin 1),
             content = '' a'' \<rparr>,
           \<lparr> baseLineNumber = Some (Fin 9007199254740992), headLineNumber = Some (Fin 2),
             content = '' b'' \<rparr>] \<rparr>] \<and>
   matchHeader ''@@ -9007199254740992 +1 @@'' = Some (''9007199254740992'', ''1'') \<and>
   int 2 - int 9007199254740992 \<noteq> int (decimal ''1'') - int (decimal ''9007199254740992'')"
proof -
  have "increment (Fin 9007199254740992) = Fin 9007199254740992"
    using increment_limit by simp
  then show ?thesis by (simp add: parser_eval)
qed

text \<open>
  Claim C4, amended. In every hunk whose header matches the regular expression of the
  code and whose two start numbers, each plus the number of records of the hunk, are at
  most \<open>2^53\<close>, a record at position \<open>i\<close> with both line numbers has head number minus
  base number equal to the head start minus the base start of the header, plus the number
  of added lines and minus the number of removed lines among the records before position
  \<open>i\<close> in the hunk.
\<close>

theorem C4_context_delta:
  assumes "hk \<in> set (parsePatch p)"
    and "matchHeader (header hk) = Some (g1, g2)"
    and "decimal g1 + length (lines hk) \<le> 2 ^ 53"
    and "decimal g2 + length (lines hk) \<le> 2 ^ 53"
    and "i < length (lines hk)"
    and "baseLineNumber (lines hk ! i) = Some (Fin b)"
    and "headLineNumber (lines hk ! i) = Some (Fin h)"
  shows "int h - int b =
           int (decimal g2) - int (decimal g1)
           + int (length (filter (\<lambda>r. startsWith (content r) ''+'') (take i (lines hk))))
           - int (length (filter (\<lambda>r. startsWith (content r) ''-'') (take i (lines hk))))"
proof -
  from assms(1) obtain b0 h0 body where
    "lines hk = number_lines (startBase b0 (header hk)) (startHead h0 (header hk)) body"
    using hunksFrom_shape [of hk "Fin 0" "Fin 0" "split_nl p"]
    by (auto simp: parsePatch_hunksFrom)
  then have l0: "lines hk = number_lines (parseInt g1) (parseInt g2) body"
    using assms(2) by (simp add: startBase_def startHead_def)
  have len: "length (lines hk) = length body" by (simp add: l0 length_number_lines)
  have d1: "decimal g1 \<le> 2 ^ 53" and d2: "decimal g2 \<le> 2 ^ 53"
    using assms(3,4) by linarith+
  have l: "lines hk = number_lines (Fin (decimal g1)) (Fin (decimal g2)) body"
    by (simp only: l0 parseInt_exact [OF d1] parseInt_exact [OF d2])
  have i: "i < length body" using assms(5) len by simp
  have bi: "decimal g1 + length (take i body) \<le> 2 ^ 53"
    and hi: "decimal g2 + length (take i body) \<le> 2 ^ 53"
    using assms(3,4) i len by simp_all
  have "baseLineNumber (lines hk ! i) =
      (if startsWith (body ! i) ''+'' then None
       else Some (baseAfter (Fin (decimal g1)) (take i body)))"
    by (simp add: l number_lines_nth [OF i])
  with assms(6) have "Fin b = baseAfter (Fin (decimal g1)) (take i body)"
    by (simp split: if_splits)
  then have b: "b = decimal g1 + length (filter (\<lambda>l. \<not> startsWith l ''+'') (take i body))"
    by (simp only: baseAfter_exact [OF order_refl bi] jsnum.inject)
  have "headLineNumber (lines hk ! i) =
      (if startsWith (body ! i) ''-'' then None
       else Some (headAfter (Fin (decimal g2)) (take i body)))"
    by (simp add: l number_lines_nth [OF i])
  with assms(7) have "Fin h = headAfter (Fin (decimal g2)) (take i body)"
    by (simp split: if_splits)
  then have h: "h = decimal g2 + length (filter (\<lambda>l. \<not> startsWith l ''-'') (take i body))"
    by (simp only: headAfter_exact [OF order_refl hi] jsnum.inject)
  have "take i (lines hk) = number_lines (Fin (decimal g1)) (Fin (decimal g2)) (take i body)"
    by (simp only: l take_number_lines)
  then have
    "length (filter (\<lambda>r. startsWith (content r) ''+'') (take i (lines hk))) =
       length (filter (\<lambda>l. startsWith l ''+'') (take i body))"
    "length (filter (\<lambda>r. startsWith (content r) ''-'') (take i (lines hk))) =
       length (filter (\<lambda>l. startsWith l ''-'') (take i body))"
    by (simp_all only: count_by_content)
  then show ?thesis
    by (simp add: b h count_compl)
qed

theorem C4_context_delta_witness:
  "sampleHunk \<in> set (parsePatch samplePatch) \<and>
   matchHeader (header sampleHunk) = Some (''3'', ''5'') \<and>
   decimal ''3'' + length (lines sampleHunk) \<le> 2 ^ 53 \<and>
   decimal ''5'' + length (lines sampleHunk) \<le> 2 ^ 53 \<and>
   4 < length (lines sampleHunk) \<and>
   baseLineNumber (lines sampleHunk ! 4) = Some (Fin 6) \<and>
   headLineNumber (lines sampleHunk ! 4) = Some (Fin 7) \<and>
   int 7 - int 6 =
     int (decimal ''5'') - int (decimal ''3'')
     + int (length (filter (\<lambda>r. startsWith (content r) ''+'') (take 4 (lines sampleHunk))))
     - int (length (filter (\<lambda>r. startsWith (content r) ''-'') (take 4 (lines sampleHunk))))"
proof -
  have a1: "sampleHunk \<in> set (parsePatch samplePatch)" by (simp add: parse_samplePatch)
  have a2: "matchHeader (header sampleHunk) = Some (''3'', ''5'')" by code_simp
  have a3: "decimal ''3'' + length (lines sampleHunk) \<le> 2 ^ 53"
    and a4: "decimal ''5'' + length (lines sampleHunk) \<le> 2 ^ 53"
    by (simp_all add: sampleHunk_def decimal_def digitVal_def)
  have a5: "4 < length (lines sampleHunk)" by (simp add: sampleHunk_def)
  have a6: "baseLineNumber (lines sampleHunk ! 4) = Some (Fin 6)" by (simp add: sampleHunk_def)
  have a7: "headLineNumber (lines sampleHunk ! 4) = Some (Fin 7)" by (simp add: sampleHunk_def)
  from C4_context_delta [OF a1 a2 a3 a4 a5 a6 a7] a1 a2 a3 a4 a5 a6 a7
  show ?thesis by (intro conjI)
qed

section \<open>Segmentation into hunks\<close>

text \<open>
  Claim C7. For every patch text: the headers of the hunks of the result are the header
  lines of the text (those that start with \<open>@@\<close>), in the order of the text, so there is
  one hunk for each of them; the hunks laid out one after the other, each as its header
  followed by the contents of its records, are the lines of the text from the first
  header line on, so every line after a header is a record of the hunk of the last header
  before it, the last hunk is in the result, and the lines before the first header are
  in no hunk; and no record holds a header line.
\<close>

theorem C7_segmentation:
  "map header (parsePatch p) = filter isHeader (split_nl p) \<and>
   concat (map (\<lambda>h. header h # map content (lines h)) (parsePatch p)) =
     dropWhile (\<lambda>l. \<not> isHeader l) (split_nl p) \<and>
   (\<forall>h \<in> set (parsePatch p). \<forall>r \<in> set (lines h). \<not> isHeader (content r))"
proof (intro conjI ballI)
  show "map header (parsePatch p) = filter isHeader (split_nl p)"
    by (simp only: parsePatch_hunksFrom hunksFrom_headers)
  show "concat (map (\<lambda>h. header h # map content (lines h)) (parsePatch p)) =
     dropWhile (\<lambda>l. \<not> isHeader l) (split_nl p)"
    by (simp only: parsePatch_hunksFrom hunksFrom_flatten)
  fix h r
  assume "h \<in> set (parsePatch p)" and r: "r \<in> set (lines h)"
  then obtain b0 h0 body where
    l: "lines h = number_lines (startBase b0 (header h)) (startHead h0 (header h)) body"
    and nh: "\<forall>x \<in> set body. \<not> isHeader x"
    using hunksFrom_shape [of h "Fin 0" "Fin 0" "split_nl p"] by (auto simp: parsePatch_hunksFrom)
  have "content r \<in> set (map content (lines h))" using r by simp
  then have "content r \<in> set body" by (simp only: l content_number_lines)
  with nh show "\<not> isHeader (content r)" by blast
qed

theorem C7_segmentation_witness:
  "map header (parsePatch samplePatch) = [''@@ -3,3 +5,2 @@ f'', ''@@ bad @@''] \<and>
   concat (map (\<lambda>h. header h # map content (lines h)) (parsePatch samplePatch)) =
     [''@@ -3,3 +5,2 @@ f'', '' ctx'', ''-old'', ''-old2'', ''+new'', '' end'',
      ''@@ bad @@'', '' tail''] \<and>
   sampleTail \<in> set (parsePatch samplePatch) \<and>
   \<lparr> baseLineNumber = Some (Fin 7), headLineNumber = Some (Fin 8), content = '' tail'' \<rparr>
     \<in> set (lines sampleTail) \<and>
   \<not> isHeader '' tail''"
proof -
  have mem: "sampleTail \<in> set (parsePatch samplePatch)"
    "\<lparr> baseLineNumber = Some (Fin 7), headLineNumber = Some (Fin 8), content = '' tail'' \<rparr>
       \<in> set (lines sampleTail)"
    by (simp_all add: parse_samplePatch sampleTail_def)
  have hs: "filter isHeader (split_nl samplePatch) = [''@@ -3,3 +5,2 @@ f'', ''@@ bad @@'']"
    by (simp add: split_samplePatch isHeader_def startsWith_def)
  have ds: "dropWhile (\<lambda>l. \<not> isHeader l) (split_nl samplePatch) =
     [''@@ -3,3 +5,2 @@ f'', '' ctx'', ''-old'', ''-old2'', ''+new'', '' end'',
      ''@@ bad @@'', '' tail'']"
    by (simp add: split_samplePatch isHeader_def startsWith_def)
  from C7_segmentation [of samplePatch]
  have c1: "map header (parsePatch samplePatch) = filter isHeader (split_nl samplePatch)"
    and c2: "concat (map (\<lambda>h. header h # map content (lines h)) (parsePatch samplePatch)) =
               dropWhile (\<lambda>l. \<not> isHeader l) (split_nl samplePatch)"
    and c3: "\<forall>h \<in> set (parsePatch samplePatch). \<forall>r \<in> set (lines h). \<not> isHeader (content r)"
    by blast+
  from c3 mem have "\<not> isHeader (content
      \<lparr> baseLineNumber = Some (Fin 7), headLineNumber = Some (Fin 8), content = '' tail'' \<rparr>)"
    by blast
  then have c4: "\<not> isHeader '' tail''" by simp
  show ?thesis using c1 c2 c4 mem by (simp only: hs ds) simp
qed

section \<open>Headers that do not match the regular expression\<close>




text \<open>
  Claim C10, as stated: when the first header line fails to match the pattern
  \<open>@@ -N[,M] +N[,M] @@\<close>, the records of the first hunk are numbered from 0. This fails
  for a first header with a comma that no count follows: \<open>@@ -4, +6, @@\<close> is not of the
  documented form, but the regular expression of the code matches it, and the context
  line that follows gets base 4 and head 6.
\<close>

theorem C10_first_header_malformed_counterexample:
  "\<not> documentedHeader ''@@ -4, +6, @@'' \<and>
   parsePatch (''@@ -4, +6, @@'' @ [CHR 0x0A] @ '' ctx'') =
     [\<lparr> header = ''@@ -4, +6, @@'',
        lines = [\<lparr> baseLineNumber = Some (Fin 4), headLineNumber = Some (Fin 6),
                   content = '' ctx'' \<rparr>] \<rparr>]"
  by (simp add: documentedHeader_def parser_eval)

text \<open>
  Claim C10, amended. Both counters start at 0. So when the first header line of the
  patch text does not match the regular expression of the code, which every header of
  the documented form matches, the result is not empty, its first hunk has that line as
  header, and the records of that hunk (the lines up to the next header) are numbered
  from base 0 and head 0; in particular a context line that leads the hunk gets base
  number 0 and head number 0. Such a header is not of the documented form either.
\<close>

theorem C10_first_header_malformed:
  assumes "dropWhile (\<lambda>x. \<not> isHeader x) (split_nl p) = l # rest"
    and "matchHeader l = None"
  shows "parsePatch p \<noteq> [] \<and>
         hd (parsePatch p) =
           \<lparr> header = l,
             lines = number_lines (Fin 0) (Fin 0) (takeWhile (\<lambda>x. \<not> isHeader x) rest) \<rparr> \<and>
         (\<forall>c cs. takeWhile (\<lambda>x. \<not> isHeader x) rest = c # cs \<and>
                 \<not> startsWith c ''-'' \<and> \<not> startsWith c ''+'' \<longrightarrow>
            hd (lines (hd (parsePatch p))) =
              \<lparr> baseLineNumber = Some (Fin 0), headLineNumber = Some (Fin 0), content = c \<rparr>) \<and>
         \<not> documentedHeader l"
proof -
  have hl: "isHeader l"
    using assms(1) hd_dropWhile [of "\<lambda>x. \<not> isHeader x" "split_nl p"] by force
  have "parsePatch p = hunksFrom (Fin 0) (Fin 0) (l # rest)"
    using hunksFrom_skip [of "Fin 0" "Fin 0" "split_nl p"]
    by (simp only: parsePatch_hunksFrom assms(1))
  then have "parsePatch p =
      \<lparr> header = l, lines = number_lines (Fin 0) (Fin 0) (bodyOf rest) \<rparr> #
      hunksFrom (baseAfter (Fin 0) (bodyOf rest)) (headAfter (Fin 0) (bodyOf rest))
        (afterBody rest)"
    using hl assms(2) by (simp add: startBase_def startHead_def)
  moreover have "\<not> documentedHeader l" using assms(2) documentedHeader_matches by blast
  ultimately show ?thesis by auto
qed

theorem C10_first_header_malformed_witness:
  "dropWhile (\<lambda>x. \<not> isHeader x) (split_nl badFirstPatch) = ''@@ bad'' # ['' ctx'', ''+new''] \<and>
   matchHeader ''@@ bad'' = None \<and>
   parsePatch badFirstPatch \<noteq> [] \<and>
   hd (parsePatch badFirstPatch) =
     \<lparr> header = ''@@ bad'',
       lines = [\<lparr> baseLineNumber = Some (Fin 0), headLineNumber = Some (Fin 0),
                   content = '' ctx'' \<rparr>,
                \<lparr> baseLineNumber = None, headLineNumber = Some (Fin 1),
                   content = ''+new'' \<rparr>] \<rparr> \<and>
   \<not> documentedHeader ''@@ bad''"
proof -
  have sp: "split_nl badFirstPatch = [''@@ bad'', '' ctx'', ''+new'']" by code_simp
  have a1: "dropWhile (\<lambda>x. \<not> isHeader x) (split_nl badFirstPatch) =
      ''@@ bad'' # ['' ctx'', ''+new'']"
    by (simp add: sp isHeader_def startsWith_def)
  have a2: "matchHeader ''@@ bad'' = None" by code_simp
  have tw: "takeWhile (\<lambda>x. \<not> isHeader x) ['' ctx'', ''+new''] = ['' ctx'', ''+new'']"
    by (simp add: isHeader_def startsWith_def)
  have nl: "number_lines (Fin 0) (Fin 0) ['' ctx'', ''+new''] =
      [\<lparr> baseLineNumber = Some (Fin 0), headLineNumber = Some (Fin 0), content = '' ctx'' \<rparr>,
       \<lparr> baseLineNumber = None, headLineNumber = Some (Fin 1), content = ''+new'' \<rparr>]"
    by (simp add: startsWith_def increment_exact)
  note c = C10_first_header_malformed [OF a1 a2]
  from c [THEN conjunct1] have r1: "parsePatch badFirstPatch \<noteq> []" .
  from c [THEN conjunct2, THEN conjunct1]
  have r2: "hd (parsePatch badFirstPatch) =
     \<lparr> header = ''@@ bad'',
       lines = [\<lparr> baseLineNumber = Some (Fin 0), headLineNumber = Some (Fin 0),
                   content = '' ctx'' \<rparr>,
                \<lparr> baseLineNumber = None, headLineNumber = Some (Fin 1),
                   content = ''+new'' \<rparr>] \<rparr>"
    by (simp only: tw nl)
  from a1 a2 r1 r2 c [THEN conjunct2, THEN conjunct2, THEN conjunct2]
  show ?thesis by (intro conjI)
qed

section \<open>Round trip\<close>

text \<open>
  Claim C5. For a well-formed patch text (every header line matches the pattern) and
  every hunk of its parse: parsing the text rebuilt from that hunk, its header line and
  then the content of each of its records, joined by newlines, yields exactly one hunk,
  and that hunk is the one that was rebuilt, so its records are the same.
\<close>

theorem C5_roundtrip:
  assumes "wellFormed p" and "hk \<in> set (parsePatch p)"
  shows "parsePatch (reconstruct hk) = [hk]"
proof -
  have "header hk \<in> set (map header (parsePatch p))" using assms(2) by simp
  then have "header hk \<in> set (filter isHeader (split_nl p))"
    by (simp only: parsePatch_hunksFrom hunksFrom_headers)
  then have "matchHeader (header hk) \<noteq> None"
    using assms(1) unfolding wellFormed_def list_all_iff by blast
  with assms(2) show ?thesis by (rule roundtrip_hunk)
qed

theorem C5_roundtrip_witness:
  "wellFormed cleanPatch \<and> cleanHunk \<in> set (parsePatch cleanPatch) \<and>
   reconstruct cleanHunk = ''@@ -10,2 +12,3 @@'' @ [CHR 0x0A] @ '' x'' @ [CHR 0x0A] @ ''+y'' \<and>
   parsePatch (reconstruct cleanHunk) = [cleanHunk]"
proof -
  have a1: "wellFormed cleanPatch" by code_simp
  have "parsePatch cleanPatch =
      [\<lparr> header = ''@@ -1 +1 @@'',
         lines = [\<lparr> baseLineNumber = Some (Fin 1), headLineNumber = None, content = ''-a'' \<rparr>,
                  \<lparr> baseLineNumber = None, headLineNumber = Some (Fin 1),
                     content = ''+b'' \<rparr>] \<rparr>,
       cleanHunk]"
    by (simp add: parser_eval cleanPatch_def cleanHunk_def)
  then have a2: "cleanHunk \<in> set (parsePatch cleanPatch)" by simp
  have a3: "reconstruct cleanHunk =
      ''@@ -10,2 +12,3 @@'' @ [CHR 0x0A] @ '' x'' @ [CHR 0x0A] @ ''+y''"
    by (simp add: reconstruct_def joinLines_def cleanHunk_def)
  from C5_roundtrip [OF a1 a2] a1 a2 a3 show ?thesis by (intro conjI)
qed

section \<open>The rate-limit guard\<close>

text \<open>
  Claim C3. \<open>makeGitHubRequest\<close> returns a rate-limit signal exactly when the upstream
  call fails with a response of status 403 whose remaining-quota header is \<open>0\<close>; the
  signal then carries the fixed error text and the reset header as \<open>retry_after\<close>. Every
  other failure is raised again as it is, and a success is returned as it is.
\<close>

theorem C3_rate_limit_guard:
  "((\<exists>signal. makeGitHubRequest get url = Inr (Inl signal)) \<longleftrightarrow>
      (\<exists>err r. get url = Inl err \<and> response err = Some r \<and>
               error_response.status r = 403 \<and>
               headers r ''x-ratelimit-remaining'' = Some ''0'')) \<and>
   (\<forall>err r. get url = Inl err \<and> response err = Some r \<and>
            error_response.status r = 403 \<and>
            headers r ''x-ratelimit-remaining'' = Some ''0'' \<longrightarrow>
      makeGitHubRequest get url =
        Inr (Inl \<lparr> error = ''GitHub API rate limit exceeded'',
                   retry_after = headers r ''x-ratelimit-reset'' \<rparr>)) \<and>
   (\<forall>err. get url = Inl err \<and>
          \<not> (\<exists>r. response err = Some r \<and> error_response.status r = 403 \<and>
                   headers r ''x-ratelimit-remaining'' = Some ''0'') \<longrightarrow>
      makeGitHubRequest get url = Inl err) \<and>
   (\<forall>payload. get url = Inr payload \<longrightarrow> makeGitHubRequest get url = Inr (Inr payload))"
  by (auto simp: makeGitHubRequest_def isRateLimit_def split: sum.splits option.splits)

theorem C3_rate_limit_guard_witness:
  "makeGitHubRequest (\<lambda>url. Inl quotaError :: request_error + nat) ''/repos/o/r/commits/c'' =
     Inr (Inl \<lparr> error = ''GitHub API rate limit exceeded'',
                retry_after = Some ''1700000000'' \<rparr>) \<and>
   makeGitHubRequest (\<lambda>url. Inl notFoundError :: request_error + nat) ''/repos/o/r/commits/c'' =
     Inl notFoundError \<and>
   makeGitHubRequest (\<lambda>url. Inr 7 :: request_error + nat) ''/repos/o/r/commits/c'' =
     Inr (Inr 7)"
proof -
  let ?u = "''/repos/o/r/commits/c''"
  let ?r = "\<lparr> error_response.status = 403,
               headers = [''x-ratelimit-remaining'' \<mapsto> ''0'',
                          ''x-ratelimit-reset'' \<mapsto> ''1700000000''] \<rparr>"
  have q: "response quotaError = Some ?r" "error_response.status ?r = 403"
    "headers ?r ''x-ratelimit-remaining'' = Some ''0''"
    "headers ?r ''x-ratelimit-reset'' = Some ''1700000000''"
    by (simp_all add: quotaError_def)
  have n: "\<not> (\<exists>r. response notFoundError = Some r \<and> error_response.status r = 403 \<and>
                  headers r ''x-ratelimit-remaining'' = Some ''0'')"
    by (simp add: notFoundError_def)
  have g1: "(\<lambda>url. Inl quotaError :: request_error + nat) ?u = Inl quotaError \<and>
      response quotaError = Some ?r \<and> error_response.status ?r = 403 \<and>
      headers ?r ''x-ratelimit-remaining'' = Some ''0''"
    using q by simp
  have g2: "(\<lambda>url. Inl notFoundError :: request_error + nat) ?u = Inl notFoundError \<and>
      \<not> (\<exists>r. response notFoundError = Some r \<and> error_response.status r = 403 \<and>
               headers r ''x-ratelimit-remaining'' = Some ''0'')"
    using n by simp
  have g3: "(\<lambda>url. Inr 7 :: request_error + nat) ?u = Inr 7" by simp
  have 1: "makeGitHubRequest (\<lambda>url. Inl quotaError :: request_error + nat) ?u =
     Inr (Inl \<lparr> error = ''GitHub API rate limit exceeded'',
                retry_after = Some ''1700000000'' \<rparr>)"
    using C3_rate_limit_guard [of "\<lambda>url. Inl quotaError :: request_error + nat" ?u,
        THEN conjunct2, THEN conjunct1, rule_format, OF g1]
    by (simp only: q)
  have 2: "makeGitHubRequest (\<lambda>url. Inl notFoundError :: request_error + nat) ?u =
     Inl notFoundError"
    using C3_rate_limit_guard [of "\<lambda>url. Inl notFoundError :: request_error + nat" ?u,
        THEN conjunct2, THEN conjunct2, THEN conjunct1, rule_format, OF g2] .
  have 3: "makeGitHubRequest (\<lambda>url. Inr 7 :: request_error + nat) ?u = Inr (Inr 7)"
    using C3_rate_limit_guard [of "\<lambda>url. Inr 7 :: request_error + nat" ?u,
        THEN conjunct2, THEN conjunct2, THEN conjunct2, rule_format, OF g3] .
  from 1 2 3 show ?thesis by (intro conjI)
qed

section \<open>The diff endpoint\<close>



text \<open>
  Claim C9. When the commit call and the compare call both succeed, the endpoint replies
  with status 200 and one FileDiff for each changed file, in order. For a changed file
  whose patch text is absent, the FileDiff has no hunks, its change kind is what the
  language's \<open>toUpperCase\<close> makes of the upstream status, and its head path and base path
  are both the file's name. As \<open>toUpperCase\<close> maps the letters \<open>a\<close> to \<open>z\<close> of an ASCII
  text to \<open>A\<close> to \<open>Z\<close> and keeps its other characters, the change kind of an ASCII status
  is that status with its letters in upper case.
\<close>

theorem C9_absent_patch:
  assumes "getCommit (commitUrl owner repository oid) = Inr commitResponse"
    and "firstParentSha (data commitResponse) = Some parentOid" and "parentOid \<noteq> []"
    and "getCompare (compareUrl owner repository parentOid oid) = Inr diffResponse"
  shows "snd (diffHandler toUpperCase getCommit getCompare owner repository oid) =
           \<lparr> code = 200,
             json = FilesBody (map (fileDiff toUpperCase) (files (data diffResponse))) \<rparr> \<and>
         (\<forall>file \<in> set (files (data diffResponse)). patch file = None \<longrightarrow>
            fileDiff toUpperCase file =
              \<lparr> changeKind = toUpperCase (changed_file.status file),
                headFile = \<lparr> path = filename file \<rparr>,
                baseFile = \<lparr> path = filename file \<rparr>,
                hunks = [] \<rparr>) \<and>
         ((\<forall>s. list_all isAscii s \<longrightarrow> toUpperCase s = asciiUpperCase s) \<longrightarrow>
            (\<forall>file \<in> set (files (data diffResponse)).
               patch file = None \<and> list_all isAscii (changed_file.status file) \<longrightarrow>
                 changeKind (fileDiff toUpperCase file) =
                   asciiUpperCase (changed_file.status file)))"
  using assms by (simp add: diffHandler_def makeGitHubRequest_def fileDiff_def)

theorem C9_absent_patch_witness:
  "snd (diffHandler asciiUpperCase (\<lambda>url. Inr mergeCommit) (\<lambda>url. Inr binaryCompare)
         ''o'' ''r'' ''ccc'') =
     \<lparr> code = 200,
       json = FilesBody [\<lparr> changeKind = ''MODIFIED'', headFile = \<lparr> path = ''logo.png'' \<rparr>,
                           baseFile = \<lparr> path = ''logo.png'' \<rparr>, hunks = [] \<rparr>,
                         \<lparr> changeKind = ''ADDED'', headFile = \<lparr> path = ''icon.ico'' \<rparr>,
                           baseFile = \<lparr> path = ''icon.ico'' \<rparr>, hunks = [] \<rparr>] \<rparr> \<and>
   list_all isAscii ''added'' \<and>
   changeKind (fileDiff asciiUpperCase
     \<lparr> changed_file.status = ''added'', filename = ''icon.ico'', patch = None \<rparr>) = ''ADDED''"
proof -
  let ?f = "\<lparr> changed_file.status = ''modified'', filename = ''logo.png'', patch = None \<rparr>"
  let ?g = "\<lparr> changed_file.status = ''added'', filename = ''icon.ico'', patch = None \<rparr>"
  have a1: "(\<lambda>url. Inr mergeCommit :: request_error + commit_data api_response)
      (commitUrl ''o'' ''r'' ''ccc'') = Inr mergeCommit" by simp
  have a2: "firstParentSha (data mergeCommit) = Some ''aaa''"
    by (simp add: firstParentSha_def mergeCommit_def)
  have a3: "''aaa'' \<noteq> []" by simp
  have a4: "(\<lambda>url. Inr binaryCompare :: request_error + compare_data api_response)
      (compareUrl ''o'' ''r'' ''aaa'' ''ccc'') = Inr binaryCompare" by simp
  have fs: "files (data binaryCompare) = [?f, ?g]" by (simp add: binaryCompare_def)
  have up: "asciiUpperCase ''modified'' = ''MODIFIED''" "asciiUpperCase ''added'' = ''ADDED''"
    by code_simp+
  have asc: "list_all isAscii ''added''" by code_simp
  have same: "\<forall>s. list_all isAscii s \<longrightarrow> asciiUpperCase s = asciiUpperCase s" by simp
  note c = C9_absent_patch [OF a1 a2 a3 a4, of asciiUpperCase]
  have mf: "?f \<in> set (files (data binaryCompare))" "?g \<in> set (files (data binaryCompare))"
    by (simp_all add: fs)
  from c [THEN conjunct2, THEN conjunct1, rule_format, OF mf(1)]
  have fd: "fileDiff asciiUpperCase ?f =
      \<lparr> changeKind = ''MODIFIED'', headFile = \<lparr> path = ''logo.png'' \<rparr>,
        baseFile = \<lparr> path = ''logo.png'' \<rparr>, hunks = [] \<rparr>"
    by (simp add: up)
  from c [THEN conjunct2, THEN conjunct1, rule_format, OF mf(2)]
  have gd: "fileDiff asciiUpperCase ?g =
      \<lparr> changeKind = ''ADDED'', headFile = \<lparr> path = ''icon.ico'' \<rparr>,
        baseFile = \<lparr> path = ''icon.ico'' \<rparr>, hunks = [] \<rparr>"
    by (simp add: up)
  have hyp: "patch ?g = None \<and> list_all isAscii (changed_file.status ?g)"
    using asc by simp
  from c [THEN conjunct2, THEN conjunct2, THEN mp, OF same, THEN bspec, OF mf(2), THEN mp, OF hyp]
  have ck: "changeKind (fileDiff asciiUpperCase ?g) = ''ADDED''" by (simp add: up)
  from c [THEN conjunct1]
  have r: "snd (diffHandler asciiUpperCase (\<lambda>url. Inr mergeCommit) (\<lambda>url. Inr binaryCompare)
         ''o'' ''r'' ''ccc'') =
     \<lparr> code = 200,
       json = FilesBody [\<lparr> changeKind = ''MODIFIED'', headFile = \<lparr> path = ''logo.png'' \<rparr>,
                           baseFile = \<lparr> path = ''logo.png'' \<rparr>, hunks = [] \<rparr>,
                         \<lparr> changeKind = ''ADDED'', headFile = \<lparr> path = ''icon.ico'' \<rparr>,
                           baseFile = \<lparr> path = ''icon.ico'' \<rparr>, hunks = [] \<rparr>] \<rparr>"
    by (simp add: fs fd gd)
  from r asc ck show ?thesis by (intro conjI)
qed

end
